theory Spec2Isabelle
  imports Main "HOL-Library.Sublist"
begin

section \<open>Go strings\<close>

text \<open>
  A Go string is a sequence of bytes, and \<open>len\<close> counts bytes. The model is
  \<^typ>\<open>string\<close>, a list of 8-bit characters. The functions of package \<open>strings\<close>
  that the program calls are modelled after their documentation, under their Go names.
\<close>

abbreviation byte :: "char \<Rightarrow> nat" where
  "byte c \<equiv> of_char c"

definition HasPrefix :: "string \<Rightarrow> string \<Rightarrow> bool" where
  "HasPrefix s pre = (length pre \<le> length s \<and> take (length pre) s = pre)"

fun Contains :: "string \<Rightarrow> string \<Rightarrow> bool" where
  "Contains [] substr = (substr = [])"
| "Contains (c # s) substr = (HasPrefix (c # s) substr \<or> Contains s substr)"

text \<open>\<open>strings.LastIndex\<close>: the byte index of the last instance, or \<open>-1\<close>.\<close>

definition LastIndex :: "string \<Rightarrow> string \<Rightarrow> int" where
  "LastIndex s substr =
     (case filter (\<lambda>i. HasPrefix (drop i s) substr) (rev [0..<Suc (length s)]) of
        [] \<Rightarrow> - 1
      | i # _ \<Rightarrow> int i)"

text \<open>
  \<open>strings.Split(s, sep)\<close> for a separator of one byte, the only way the program
  calls it (\<open>"\n"\<close>): the pieces between the separators, one more than there are
  separators, so the empty string gives one empty piece.
\<close>

fun Split :: "string \<Rightarrow> char \<Rightarrow> string list" where
  "Split [] sep = [[]]"
| "Split (c # s) sep =
     (if c = sep then [] # Split s sep
      else (case Split s sep of
              [] \<Rightarrow> [[c]]
            | piece # pieces \<Rightarrow> (c # piece) # pieces))"

fun Join :: "string list \<Rightarrow> string \<Rightarrow> string" where
  "Join [] sep = []"
| "Join [x] sep = x"
| "Join (x # y # ys) sep = x @ sep @ Join (y # ys) sep"

subsection \<open>UTF-8\<close>

text \<open>
  A \<open>range\<close> loop over a string and \<open>strings.TrimSpace\<close> read the bytes as UTF-8.
  \<open>decodeRune\<close> is \<open>utf8.DecodeRuneInString\<close>: the code point at the head of the
  string and its width in bytes; a byte that starts no valid encoding is read as
  \<open>RuneError\<close> (U+FFFD) of width 1. Code points are natural numbers.
\<close>

definition RuneError :: nat where
  "RuneError = 0xFFFD"

definition inRange :: "nat \<Rightarrow> nat \<Rightarrow> char \<Rightarrow> bool" where
  "inRange lo hi c = (lo \<le> byte c \<and> byte c \<le> hi)"

text \<open>The second byte of an encoding is restricted by the first (Go's \<open>acceptRanges\<close>).\<close>

definition acceptLo :: "nat \<Rightarrow> nat" where
  "acceptLo b0 = (if b0 = 0xE0 then 0xA0 else if b0 = 0xF0 then 0x90 else 0x80)"

definition acceptHi :: "nat \<Rightarrow> nat" where
  "acceptHi b0 = (if b0 = 0xED then 0x9F else if b0 = 0xF4 then 0x8F else 0xBF)"

fun decodeRune :: "string \<Rightarrow> nat \<times> nat" where
  "decodeRune [] = (RuneError, 0)"
| "decodeRune (c0 # s) =
     (let b0 = byte c0 in
      if b0 < 0x80 then (b0, 1)
      else if b0 < 0xC2 \<or> 0xF4 < b0 then (RuneError, 1)
      else if b0 < 0xE0 then
        (case s of
           c1 # _ \<Rightarrow>
             if inRange 0x80 0xBF c1
             then ((b0 - 0xC0) * 64 + (byte c1 - 0x80), 2)
             else (RuneError, 1)
         | _ \<Rightarrow> (RuneError, 1))
      else if b0 < 0xF0 then
        (case s of
           c1 # c2 # _ \<Rightarrow>
             if inRange (acceptLo b0) (acceptHi b0) c1 \<and> inRange 0x80 0xBF c2
             then ((b0 - 0xE0) * 4096 + (byte c1 - 0x80) * 64 + (byte c2 - 0x80), 3)
             else (RuneError, 1)
         | _ \<Rightarrow> (RuneError, 1))
      else
        (case s of
           c1 # c2 # c3 # _ \<Rightarrow>
             if inRange (acceptLo b0) (acceptHi b0) c1 \<and> inRange 0x80 0xBF c2
                \<and> inRange 0x80 0xBF c3
             then ((b0 - 0xF0) * 262144 + (byte c1 - 0x80) * 4096
                   + (byte c2 - 0x80) * 64 + (byte c3 - 0x80), 4)
             else (RuneError, 1)
         | _ \<Rightarrow> (RuneError, 1)))"

text \<open>
  \<open>encodeRune\<close> is \<open>utf8.AppendRune\<close>, which \<open>strings.Builder.WriteRune\<close> calls:
  surrogates and values above U+10FFFF are written as U+FFFD.
\<close>

definition encodeRune :: "nat \<Rightarrow> string" where
  "encodeRune r =
     (if r \<le> 0x7F then [char_of r]
      else if r \<le> 0x7FF then [char_of (0xC0 + r div 64), char_of (0x80 + r mod 64)]
      else if 0x10FFFF < r \<or> (0xD800 \<le> r \<and> r \<le> 0xDFFF)
        then [CHR 0xEF, CHR 0xBF, CHR 0xBD]
      else if r \<le> 0xFFFF
        then [char_of (0xE0 + r div 4096), char_of (0x80 + (r div 64) mod 64),
              char_of (0x80 + r mod 64)]
      else [char_of (0xF0 + r div 262144), char_of (0x80 + (r div 4096) mod 64),
            char_of (0x80 + (r div 64) mod 64), char_of (0x80 + r mod 64)])"

text \<open>
  \<open>utf8.DecodeLastRuneInString\<close>: the code point at the end of the string. It walks
  back over at most three bytes to a byte that can start an encoding, decodes from
  there, and accepts the result only if it ends exactly at the end of the string.
\<close>

definition RuneStart :: "char \<Rightarrow> bool" where
  "RuneStart c = (\<not> inRange 0x80 0xBF c)"

fun lastStart :: "string \<Rightarrow> nat \<Rightarrow> nat \<Rightarrow> nat" where
  "lastStart s lim 0 = 0"
| "lastStart s lim (Suc start) =
     (if Suc start < lim then Suc start
      else if RuneStart (s ! Suc start) then Suc start
      else lastStart s lim start)"

definition decodeLastRune :: "string \<Rightarrow> nat \<times> nat" where
  "decodeLastRune s =
     (let end = length s in
      if end = 0 then (RuneError, 0)
      else if byte (s ! (end - 1)) < 0x80 then (byte (s ! (end - 1)), 1)
      else
        (let lim = end - 4;
             start = (if end < 2 then 0 else lastStart s lim (end - 2));
             (r, size) = decodeRune (drop start s)
         in if start + size \<noteq> end then (RuneError, 1) else (r, size)))"

text \<open>\<open>unicode.IsSpace\<close>: the code points with Unicode's White_Space property.\<close>

definition IsSpace :: "nat \<Rightarrow> bool" where
  "IsSpace r =
     ((0x09 \<le> r \<and> r \<le> 0x0D) \<or> r = 0x20 \<or> r = 0x85 \<or> r = 0xA0 \<or> r = 0x1680
      \<or> (0x2000 \<le> r \<and> r \<le> 0x200A) \<or> r = 0x2028 \<or> r = 0x2029 \<or> r = 0x202F
      \<or> r = 0x205F \<or> r = 0x3000)"

text \<open>The code points that have a UTF-8 encoding: up to U+10FFFF, without the surrogates.\<close>

definition validRune :: "nat \<Rightarrow> bool" where
  "validRune r = (r \<le> 0x10FFFF \<and> \<not> (0xD800 \<le> r \<and> r \<le> 0xDFFF))"

lemma decodeRune_width:
  "s \<noteq> [] \<Longrightarrow> 1 \<le> snd (decodeRune s) \<and> snd (decodeRune s) \<le> length s"
  by (cases s) (auto simp: Let_def split: list.splits)

lemma lastStart_le: "lastStart s lim start \<le> start"
  by (induction start) auto

lemma decodeLastRune_width:
  "s \<noteq> [] \<Longrightarrow> 1 \<le> snd (decodeLastRune s)"
proof -
  assume "s \<noteq> []"
  have "lastStart s (length s - 4) (length s - 2) \<le> length s - 2"
    by (rule lastStart_le)
  then have "lastStart s (length s - 4) (length s - 2) < length s"
    using \<open>s \<noteq> []\<close> by (cases s) auto
  then show ?thesis
    using \<open>s \<noteq> []\<close>
    by (auto simp: decodeLastRune_def Let_def split: prod.splits if_splits)
qed

text \<open>
  \<open>strings.TrimLeftFunc\<close> and \<open>strings.TrimRightFunc\<close> drop code points from one
  end while the predicate holds; \<open>strings.TrimSpace\<close> removes the white space of
  both ends, left end first.
\<close>

function TrimLeftFunc :: "string \<Rightarrow> (nat \<Rightarrow> bool) \<Rightarrow> string" where
  "TrimLeftFunc s f =
     (if s = [] then []
      else (let (r, size) = decodeRune s
            in if f r then TrimLeftFunc (drop size s) f else s))"
  by pat_completeness auto
termination
proof (relation "measure (\<lambda>(s, f). length s)")
  fix s :: string and f :: "nat \<Rightarrow> bool" and x r size
  assume "s \<noteq> []" "x = decodeRune s" "(r, size) = x"
  then show "((drop size s, f), (s, f)) \<in> measure (\<lambda>(s, f). length s)"
    using decodeRune_width [of s] by (cases "decodeRune s") auto
qed simp

declare TrimLeftFunc.simps [simp del]

function TrimRightFunc :: "string \<Rightarrow> (nat \<Rightarrow> bool) \<Rightarrow> string" where
  "TrimRightFunc s f =
     (if s = [] then []
      else (let (r, size) = decodeLastRune s
            in if f r then TrimRightFunc (take (length s - size) s) f else s))"
  by pat_completeness auto
termination
proof (relation "measure (\<lambda>(s, f). length s)")
  fix s :: string and f :: "nat \<Rightarrow> bool" and x r size
  assume "s \<noteq> []" "x = decodeLastRune s" "(r, size) = x"
  then show "((take (length s - size) s, f), (s, f)) \<in> measure (\<lambda>(s, f). length s)"
    using decodeLastRune_width [of s] by (cases "decodeLastRune s") auto
qed simp

declare TrimRightFunc.simps [simp del]

definition TrimSpace :: "string \<Rightarrow> string" where
  "TrimSpace s = TrimRightFunc (TrimLeftFunc s IsSpace) IsSpace"

text \<open>
  A \<open>strings.Replacer\<close> is its list of pairs (old, new). \<open>Replace\<close> walks the
  target once; at each position the old strings are compared in argument order, the
  first that matches is replaced and skipped, and a byte that starts no match is
  copied. Every old string of the program is one byte long; an empty old string is
  not looked for.
\<close>

fun lookupOld :: "(string \<times> string) list \<Rightarrow> string \<Rightarrow> (string \<times> string) option" where
  "lookupOld [] s = None"
| "lookupOld ((old, new) # oldnew) s =
     (if old \<noteq> [] \<and> HasPrefix s old then Some (old, new) else lookupOld oldnew s)"

lemma lookupOld_nonempty: "lookupOld oldnew s = Some (old, new) \<Longrightarrow> old \<noteq> []"
  by (induction oldnew) (auto split: if_splits)

function Replace :: "(string \<times> string) list \<Rightarrow> string \<Rightarrow> string" where
  "Replace oldnew [] = []"
| "Replace oldnew (c # s) =
     (case lookupOld oldnew (c # s) of
        Some (old, new) \<Rightarrow> new @ Replace oldnew (drop (length old) (c # s))
      | None \<Rightarrow> c # Replace oldnew s)"
  by pat_completeness auto
termination
  by (relation "measure (\<lambda>(oldnew, s). length s)") (auto dest: lookupOld_nonempty)

section \<open>Output path resolver\<close>

text \<open>\<open>sanitizeFilename\<close>, the same text in both variants of the program.\<close>

definition sanitizeFilename :: "string \<Rightarrow> string" where
  "sanitizeFilename s =
     (let replacer =
        [(''/'', ''-''),
         ([CHR 0x5C], ''-''),
         ('':'', ''-''),
         (''*'', ''''),
         (''?'', ''''),
         ([CHR 0x22], ''''),
         (''<'', ''''),
         (''>'', ''''),
         (''|'', '''')]
      in Replace replacer s)"

section \<open>Subtitle normalizer\<close>

text \<open>
  \<open>isTimestamp\<close>, \<open>stripTags\<close>, \<open>extractText\<close> and \<open>dedupeVTT\<close> have the same text
  in both variants of the program.
\<close>

definition isTimestamp :: "string \<Rightarrow> bool" where
  "isTimestamp line =
     (Contains line '':'' \<and> (Contains line ''.'' \<or> Contains line '','')
      \<and> length line < 30)"

text \<open>
  The loop of \<open>stripTags\<close> over the code points of the rest of the string, with the
  builder \<open>result\<close> and the flag \<open>inTag\<close> as loop state.
\<close>

function stripTags_loop :: "string \<Rightarrow> string \<Rightarrow> bool \<Rightarrow> string" where
  "stripTags_loop s result inTag =
     (if s = [] then result
      else (let (r, size) = decodeRune s; rest = drop size s
            in if r = 0x3C then stripTags_loop rest result True
               else if r = 0x3E then stripTags_loop rest result False
               else if \<not> inTag then stripTags_loop rest (result @ encodeRune r) inTag
               else stripTags_loop rest result inTag))"
  by pat_completeness auto
termination
proof (relation "measure (\<lambda>(s, result, inTag). length s)")
  fix s :: string and x :: "nat \<times> nat" and r size :: nat and rest :: string
  assume a: "s \<noteq> []" "x = decodeRune s" "(r, size) = x" "rest = drop size s"
  then have "size = snd (decodeRune s)"
    by (cases "decodeRune s") auto
  with a decodeRune_width [of s] have "length rest < length s"
    by auto
  then show "((rest, result, True), (s, result, inTag)) \<in> measure (\<lambda>(s, result, inTag). length s)"
    and "((rest, result, False), (s, result, inTag)) \<in> measure (\<lambda>(s, result, inTag). length s)"
    and "((rest, result @ encodeRune r, inTag), (s, result, inTag))
           \<in> measure (\<lambda>(s, result, inTag). length s)"
    and "((rest, result, inTag), (s, result, inTag)) \<in> measure (\<lambda>(s, result, inTag). length s)"
    for result inTag
    by auto
qed simp

declare stripTags_loop.simps [simp del]

definition stripTags :: "string \<Rightarrow> string" where
  "stripTags s = stripTags_loop s [] False"

text \<open>
  The files the program reads and writes: a map from paths to contents, and the paths
  that can be written. An \<open>error\<close> is modelled by its message.
\<close>

type_synonym error = string

record filesystem =
  files :: "string \<rightharpoonup> string"
  writable :: "string \<Rightarrow> bool"

definition ReadFile :: "filesystem \<Rightarrow> string \<Rightarrow> error + string" where
  "ReadFile fs name =
     (case files fs name of
        None \<Rightarrow> Inl (''open '' @ name @ '': no such file or directory'')
      | Some content \<Rightarrow> Inr content)"

definition WriteFile :: "filesystem \<Rightarrow> string \<Rightarrow> string \<Rightarrow> error + filesystem" where
  "WriteFile fs name data =
     (if writable fs name then Inr (fs\<lparr>files := (files fs)(name \<mapsto> data)\<rparr>)
      else Inl (''open '' @ name @ '': permission denied''))"

text \<open>
  The loop of \<open>extractText\<close> over the lines, with the map \<open>seen\<close> (a missing key reads
  as false) and the slice \<open>textLines\<close> as loop state.
\<close>

fun extractText_loop :: "string list \<Rightarrow> (string \<Rightarrow> bool) \<Rightarrow> string list \<Rightarrow> string list" where
  "extractText_loop [] seen textLines = textLines"
| "extractText_loop (line # lines) seen textLines =
     (let line = TrimSpace line in
      if line = [] \<or> line = ''WEBVTT'' \<or> line = ''Kind: captions''
         \<or> HasPrefix line ''Language:''
         \<or> Contains line ''-->''
         \<or> HasPrefix line ''NOTE''
         \<or> isTimestamp line
      then extractText_loop lines seen textLines
      else (let line = stripTags line;
                line = TrimSpace line
            in if line = [] then extractText_loop lines seen textLines
               else if \<not> seen line
               then extractText_loop lines (seen(line := True)) (textLines @ [line])
               else extractText_loop lines seen textLines))"

definition extractText :: "filesystem \<Rightarrow> string \<Rightarrow> error + string" where
  "extractText fs vttPath =
     (case ReadFile fs vttPath of
        Inl err \<Rightarrow> Inl err
      | Inr content \<Rightarrow>
          (let lines = Split content (CHR 0x0A);
               textLines = extractText_loop lines (\<lambda>_. False) []
           in Inr (Join textLines [CHR 0x0A])))"

text \<open>The loop of \<open>dedupeVTT\<close>, a second copy of the loop above in the source.\<close>

fun dedupeVTT_loop :: "string list \<Rightarrow> (string \<Rightarrow> bool) \<Rightarrow> string list \<Rightarrow> string list" where
  "dedupeVTT_loop [] seen textLines = textLines"
| "dedupeVTT_loop (line # lines) seen textLines =
     (let line = TrimSpace line in
      if line = [] \<or> line = ''WEBVTT'' \<or> line = ''Kind: captions''
         \<or> HasPrefix line ''Language:''
         \<or> Contains line ''-->''
         \<or> HasPrefix line ''NOTE''
         \<or> isTimestamp line
      then dedupeVTT_loop lines seen textLines
      else (let line = stripTags line;
                line = TrimSpace line
            in if line = [] then dedupeVTT_loop lines seen textLines
               else if \<not> seen line
               then dedupeVTT_loop lines (seen(line := True)) (textLines @ [line])
               else dedupeVTT_loop lines seen textLines))"

definition dedupeVTT :: "filesystem \<Rightarrow> string \<Rightarrow> string \<Rightarrow> error + filesystem" where
  "dedupeVTT fs vttPath txtPath =
     (case ReadFile fs vttPath of
        Inl err \<Rightarrow> Inl err
      | Inr content \<Rightarrow>
          (let lines = Split content (CHR 0x0A);
               textLines = dedupeVTT_loop lines (\<lambda>_. False) [];
               output = Join textLines [CHR 0x0A]
           in WriteFile fs txtPath output))"

text \<open>
  What one turn of the loop makes of a line: nothing when the line is skipped, or the
  text that is then looked up in \<open>seen\<close>.
\<close>

definition cleanLine :: "string \<Rightarrow> string option" where
  "cleanLine l =
     (let line = TrimSpace l in
      if line = [] \<or> line = ''WEBVTT'' \<or> line = ''Kind: captions''
         \<or> HasPrefix line ''Language:''
         \<or> Contains line ''-->''
         \<or> HasPrefix line ''NOTE''
         \<or> isTimestamp line
      then None
      else (let line = stripTags line;
                line = TrimSpace line
            in if line = [] then None else Some line))"

section \<open>Output patterns and the subtitle search directory\<close>

text \<open>
  The package variables \<open>outputDir\<close> and \<open>customOutPath\<close>, set once in \<open>main\<close>, are
  passed as a record. The external fetch tool is the function \<open>run\<close>: the error, if
  any, of running \<open>yt-dlp\<close> with the given arguments. \<open>processSubtitles\<close>, which
  reads a directory and converts each caption file in it, is taken as a function of
  that directory.
\<close>

record globals =
  outputDir :: string
  customOutPath :: string

definition getOutputPattern :: "globals \<Rightarrow> string \<Rightarrow> string" where
  "getOutputPattern g ext =
     (if customOutPath g \<noteq> [] then customOutPath g @ ext
      else (let dir = ''.'';
                dir = (if outputDir g \<noteq> [] then outputDir g else dir)
            in dir @ ''/%(title)s'' @ ext))"

definition doDownloadVideo :: "globals \<Rightarrow> (string list \<Rightarrow> error option) \<Rightarrow> string \<Rightarrow> error option" where
  "doDownloadVideo g run url =
     run [''-f'', ''bestvideo[ext=mp4]+bestaudio[ext=m4a]/best[ext=mp4]/best'',
          ''--merge-output-format'', ''mp4'',
          ''-q'', ''--no-warnings'',
          ''-o'', getOutputPattern g ''.%(ext)s'', url]"

definition doDownloadAudio :: "globals \<Rightarrow> (string list \<Rightarrow> error option) \<Rightarrow> string \<Rightarrow> error option" where
  "doDownloadAudio g run url =
     run [''-x'', ''--audio-format'', ''mp3'', ''--audio-quality'', ''0'',
          ''-q'', ''--no-warnings'',
          ''-o'', getOutputPattern g ''.%(ext)s'', url]"

text \<open>\<open>doDownloadSubs\<close> of the multi-select variant.\<close>

definition doDownloadSubs ::
  "globals \<Rightarrow> (string list \<Rightarrow> error option) \<Rightarrow> (string \<Rightarrow> error option) \<Rightarrow> string
     \<Rightarrow> error option" where
  "doDownloadSubs g run processSubtitles url =
     (case run [''--write-subs'', ''--write-auto-subs'', ''--sub-lang'', ''en'',
                ''--sub-format'', ''vtt'', ''--skip-download'',
                ''-q'', ''--no-warnings'',
                ''-o'', getOutputPattern g ''.%(ext)s'', url] of
        Some err \<Rightarrow> Some err
      | None \<Rightarrow>
          (let searchDir = ''.'';
               searchDir = (if outputDir g \<noteq> [] then outputDir g else searchDir);
               searchDir =
                 (if customOutPath g \<noteq> [] then
                    (let lastSlash = LastIndex (customOutPath g) ''/''
                     in if lastSlash > 0 then take (nat lastSlash) (customOutPath g)
                        else searchDir)
                  else searchDir)
           in processSubtitles searchDir))"

text \<open>\<open>downloadSubs\<close> of the single-select variant.\<close>

definition downloadSubs ::
  "globals \<Rightarrow> (string list \<Rightarrow> error option) \<Rightarrow> (string \<Rightarrow> error option) \<Rightarrow> string
     \<Rightarrow> error option" where
  "downloadSubs g run processSubtitles url =
     (case run [''--write-subs'', ''--write-auto-subs'', ''--sub-lang'', ''en'',
                ''--sub-format'', ''vtt'', ''--skip-download'',
                ''-o'', getOutputPattern g ''.%(ext)s'', url] of
        Some err \<Rightarrow> Some err
      | None \<Rightarrow>
          (let searchDir = ''.'';
               searchDir = (if outputDir g \<noteq> [] then outputDir g else searchDir)
           in processSubtitles searchDir))"

section \<open>Step orchestrator\<close>

text \<open>
  The download functions are the orchestrator's collaborators: each field gives, for a
  URL, the error the function returns, if any. Next to its result a run returns the
  list of the collaborators it called, in order.
\<close>

record tools =
  videoTool :: "string \<Rightarrow> error option"
  audioTool :: "string \<Rightarrow> error option"
  subsTool :: "string \<Rightarrow> error option"
  summaryTool :: "string \<Rightarrow> string \<Rightarrow> error option"

definition defaultPrompt :: string where
  "defaultPrompt = ''Summarize this transcript of a YouTube video. Provide a concise summary of the main points and key takeaways.''"

subsection \<open>The single-select variant\<close>

datatype Mode = ModeVideo | ModeAudio | ModeSubs | ModeAll | ModeSummary

text \<open>\<open>fmt.Errorf("video download failed: %w", err)\<close> puts its text before the message.\<close>

definition runDownload_Mode :: "tools \<Rightarrow> string \<Rightarrow> Mode \<Rightarrow> error option \<times> string list" where
  "runDownload_Mode t url mode =
     (case mode of
        ModeVideo \<Rightarrow> (videoTool t url, [''video''])
      | ModeAudio \<Rightarrow> (audioTool t url, [''audio''])
      | ModeSubs \<Rightarrow> (subsTool t url, [''subs''])
      | ModeAll \<Rightarrow>
          (case videoTool t url of
             Some err \<Rightarrow> (Some (''video download failed: '' @ err), [''video''])
           | None \<Rightarrow>
               (case audioTool t url of
                  Some err \<Rightarrow> (Some (''audio download failed: '' @ err), [''video'', ''audio''])
                | None \<Rightarrow>
                    (case subsTool t url of
                       Some err \<Rightarrow>
                         (Some (''subtitle download failed: '' @ err),
                          [''video'', ''audio'', ''subs''])
                     | None \<Rightarrow> (None, [''video'', ''audio'', ''subs'']))))
      | ModeSummary \<Rightarrow> (summaryTool t url defaultPrompt, [''summary'']))"

subsection \<open>The multi-select variant\<close>

record DownloadOptions =
  Video :: bool
  Audio :: bool
  Subs :: bool
  Summary :: bool
  Prompt :: string

text \<open>
  A key press as the terminal library reports it: the keys the programs tell apart by
  type, typed text (\<open>KeyRunes\<close>, with the text as a string), and any other key by
  its name. \<open>keyString\<close> is the method \<open>String\<close> of a key message.
\<close>

datatype key = KeyCtrlC | KeyEnter | KeyEscape | KeyBackspace | KeyRunes string | KeyNamed string

fun keyString :: "key \<Rightarrow> string" where
  "keyString KeyCtrlC = ''ctrl+c''"
| "keyString KeyEnter = ''enter''"
| "keyString KeyEscape = ''esc''"
| "keyString KeyBackspace = ''backspace''"
| "keyString (KeyRunes runes) = runes"
| "keyString (KeyNamed name) = name"

text \<open>
  The interactive selector. The fields of \<open>model\<close> carry the prefix \<open>m_\<close>. The
  cursor stays below the number of choices, which is the length of \<open>m_checked\<close>, so
  the index of the toggle is in range.
\<close>

datatype uiState = stateURLInput | stateLoading | stateMenu

record model =
  m_url :: string
  m_choices :: "string list"
  m_cursor :: nat
  m_checked :: "bool list"
  m_done :: bool
  m_quitting :: bool
  m_title :: string
  m_outPath :: string
  m_editing :: bool
  m_editBuf :: string
  m_state :: uiState
  m_editingField :: string
  m_prompt :: string

datatype menuMsg = titleMsg string | errMsg error | MenuKeyMsg key

datatype menuCmd = MenuQuit | fetchTitle string | NoMenuCmd

definition initialModel :: "globals \<Rightarrow> bool \<Rightarrow> string \<Rightarrow> model" where
  "initialModel g claudeAvailable url =
     (let state = stateURLInput;
          state = (if url \<noteq> [] then stateLoading else state);
          dir = ''.'';
          dir = (if outputDir g \<noteq> [] then outputDir g else dir);
          summaryLabel = ''Summary'';
          summaryLabel = (if \<not> claudeAvailable then ''Summary (install claude cli)''
                          else summaryLabel)
      in \<lparr>m_url = url,
          m_choices = [''Video'', ''Audio'', ''Subtitles'', summaryLabel],
          m_cursor = 0,
          m_checked = [False, False, False, False],
          m_done = False,
          m_quitting = False,
          m_title = [],
          m_outPath = dir @ ''/video'',
          m_editing = False,
          m_editBuf = [],
          m_state = state,
          m_editingField = [],
          m_prompt = defaultPrompt\<rparr>)"

definition getOptions :: "model \<Rightarrow> DownloadOptions" where
  "getOptions m =
     \<lparr>Video = m_checked m ! 0, Audio = m_checked m ! 1, Subs = m_checked m ! 2,
      Summary = m_checked m ! 3, Prompt = m_prompt m\<rparr>"

text \<open>\<open>Update\<close> of the selector.\<close>

definition Update_model :: "globals \<Rightarrow> bool \<Rightarrow> model \<Rightarrow> menuMsg \<Rightarrow> model \<times> menuCmd" where
  "Update_model g claudeAvailable m message =
     (case message of
        titleMsg title \<Rightarrow>
          (let dir = ''.'';
               dir = (if outputDir g \<noteq> [] then outputDir g else dir)
           in (m\<lparr>m_title := title,
                  m_outPath := dir @ ''/'' @ sanitizeFilename title,
                  m_state := stateMenu\<rparr>, NoMenuCmd))
      | errMsg e \<Rightarrow> (m\<lparr>m_state := stateMenu\<rparr>, NoMenuCmd)
      | MenuKeyMsg k \<Rightarrow>
          if m_state m = stateURLInput then
            (case k of
               KeyCtrlC \<Rightarrow> (m\<lparr>m_quitting := True\<rparr>, MenuQuit)
             | KeyEnter \<Rightarrow>
                 (if m_url m \<noteq> [] then (m\<lparr>m_state := stateLoading\<rparr>, fetchTitle (m_url m))
                  else (m, NoMenuCmd))
             | KeyBackspace \<Rightarrow>
                 ((if length (m_url m) > 0 then m\<lparr>m_url := butlast (m_url m)\<rparr> else m),
                  NoMenuCmd)
             | KeyRunes runes \<Rightarrow> (m\<lparr>m_url := m_url m @ runes\<rparr>, NoMenuCmd)
             | _ \<Rightarrow> (m, NoMenuCmd))
          else if m_editing m then
            (case k of
               KeyEnter \<Rightarrow>
                 ((if m_editingField m = ''path'' then m\<lparr>m_outPath := m_editBuf m\<rparr>
                   else if m_editingField m = ''prompt'' then m\<lparr>m_prompt := m_editBuf m\<rparr>
                   else m)\<lparr>m_editing := False\<rparr>, NoMenuCmd)
             | KeyEscape \<Rightarrow> (m\<lparr>m_editing := False\<rparr>, NoMenuCmd)
             | KeyBackspace \<Rightarrow>
                 ((if length (m_editBuf m) > 0 then m\<lparr>m_editBuf := butlast (m_editBuf m)\<rparr>
                   else m), NoMenuCmd)
             | KeyRunes runes \<Rightarrow> (m\<lparr>m_editBuf := m_editBuf m @ runes\<rparr>, NoMenuCmd)
             | _ \<Rightarrow> (m, NoMenuCmd))
          else
            (let s = keyString k in
             if s = ''ctrl+c'' \<or> s = ''q'' then (m\<lparr>m_quitting := True\<rparr>, MenuQuit)
             else if s = ''up'' \<or> s = ''k'' then
               ((if m_cursor m > 0 then m\<lparr>m_cursor := m_cursor m - 1\<rparr> else m), NoMenuCmd)
             else if s = ''down'' \<or> s = ''j'' then
               ((if m_cursor m < length (m_choices m) - 1
                 then m\<lparr>m_cursor := m_cursor m + 1\<rparr> else m), NoMenuCmd)
             else if s = '' '' \<or> s = ''x'' then
               ((if m_cursor m = 3 \<and> \<not> claudeAvailable then m
                 else m\<lparr>m_checked := (m_checked m)[m_cursor m := \<not> m_checked m ! m_cursor m]\<rparr>),
                NoMenuCmd)
             else if s = ''enter'' then
               (let opts = getOptions m in
                if Video opts \<or> Audio opts \<or> Subs opts \<or> Summary opts
                then (m\<lparr>m_done := True\<rparr>, MenuQuit)
                else (m, NoMenuCmd))
             else if s = ''e'' then
               (m\<lparr>m_editing := True, m_editingField := ''path'', m_editBuf := m_outPath m\<rparr>,
                NoMenuCmd)
             else if s = ''p'' then
               ((if claudeAvailable
                 then m\<lparr>m_editing := True, m_editingField := ''prompt'',
                        m_editBuf := m_prompt m\<rparr>
                 else m), NoMenuCmd)
             else (m, NoMenuCmd)))"

text \<open>
  The model of the download program, without its spinner. \<open>dm_err\<close> is \<open>None\<close> for
  Go's \<open>nil\<close>.
\<close>

record downloadModel =
  dm_status :: string
  dm_done :: bool
  dm_err :: "error option"
  dm_url :: string
  dm_opts :: DownloadOptions
  dm_steps :: "string list"
  dm_step :: nat

function Itoa :: "nat \<Rightarrow> string" where
  "Itoa n = (if n < 10 then [char_of (48 + n)] else Itoa (n div 10) @ [char_of (48 + n mod 10)])"
  by pat_completeness auto
termination
  by (relation "measure id") auto

declare Itoa.simps [simp del]

definition getStatusText :: "downloadModel \<Rightarrow> string" where
  "getStatusText m =
     (if dm_step m \<ge> length (dm_steps m) then ''Done!''
      else (let stepName = dm_steps m ! dm_step m;
                total = length (dm_steps m);
                current = dm_step m + 1;
                desc = (if stepName = ''video'' then ''Downloading video''
                        else if stepName = ''audio'' then ''Downloading audio''
                        else if stepName = ''subs'' then ''Downloading subtitles''
                        else '''')
            in if total > 1
               then desc @ '' ('' @ Itoa current @ ''/'' @ Itoa total @ '')...''
               else desc @ ''...''))"

definition initialDownloadModel :: "string \<Rightarrow> DownloadOptions \<Rightarrow> downloadModel" where
  "initialDownloadModel url opts =
     (let steps = [];
          steps = (if Video opts then steps @ [''video''] else steps);
          steps = (if Audio opts then steps @ [''audio''] else steps);
          steps = (if Subs opts then steps @ [''subs''] else steps);
          dm = \<lparr>dm_status = [], dm_done = False, dm_err = None, dm_url = url,
                dm_opts = opts, dm_steps = steps, dm_step = 0\<rparr>
      in dm\<lparr>dm_status := getStatusText dm\<rparr>)"

datatype msg =
  KeyMsg key
| startDownloadMsg
| downloadDoneMsg "error option"
| TickMsg

datatype cmd = Quit | RunCurrentStep | SpinnerTick | NoCmd

text \<open>
  The command \<open>runCurrentStep\<close> returns: run by the program, it calls the download
  function of the current step and reports the outcome as a message.
\<close>

definition runCurrentStep :: "tools \<Rightarrow> downloadModel \<Rightarrow> msg \<times> string list" where
  "runCurrentStep t m =
     (if dm_step m \<ge> length (dm_steps m) then (downloadDoneMsg None, [])
      else (let stepName = dm_steps m ! dm_step m in
            if stepName = ''video'' then (downloadDoneMsg (videoTool t (dm_url m)), [stepName])
            else if stepName = ''audio'' then (downloadDoneMsg (audioTool t (dm_url m)), [stepName])
            else if stepName = ''subs'' then (downloadDoneMsg (subsTool t (dm_url m)), [stepName])
            else (downloadDoneMsg None, [])))"

text \<open>The download function that the switch of \<open>runCurrentStep\<close> calls for a step name.\<close>

definition stepResult :: "tools \<Rightarrow> string \<Rightarrow> string \<Rightarrow> error option" where
  "stepResult t url stepName =
     (if stepName = ''video'' then videoTool t url
      else if stepName = ''audio'' then audioTool t url
      else if stepName = ''subs'' then subsTool t url
      else None)"

definition Update :: "downloadModel \<Rightarrow> msg \<Rightarrow> downloadModel \<times> cmd" where
  "Update m message =
     (case message of
        KeyMsg k \<Rightarrow> (if keyString k = ''ctrl+c'' then (m, Quit) else (m, NoCmd))
      | startDownloadMsg \<Rightarrow> (m, RunCurrentStep)
      | downloadDoneMsg e \<Rightarrow>
          (case e of
             Some err \<Rightarrow> (m\<lparr>dm_err := Some err, dm_done := True\<rparr>, Quit)
           | None \<Rightarrow>
               (let m = m\<lparr>dm_step := dm_step m + 1\<rparr> in
                if dm_step m < length (dm_steps m)
                then (m\<lparr>dm_status := getStatusText m\<rparr>, RunCurrentStep)
                else (m\<lparr>dm_done := True\<rparr>, Quit)))
      | TickMsg \<Rightarrow> (m, SpinnerTick))"

text \<open>
  The program loop of the terminal library. One command is in flight at a time: first
  the one from \<open>Init\<close> that returns \<open>startDownloadMsg\<close>, then the step that
  \<open>Update\<close> started last; \<open>pending\<close> is the message it will deliver. A step is
  called when its command starts. What happens around the program is a list of
  events: a key press, a spinner tick, the command in flight coming back, or the
  library failing, which makes \<open>Run\<close> return that error. The loop ends when
  \<open>Update\<close> returns \<open>Quit\<close> or the library fails, with the final model, the
  error of \<open>Run\<close> and the steps called; on a list of events that ends before, the
  program is still running and there is no result.
\<close>

datatype event = KeyPress key | Tick | CmdDone | RunFailure error

fun teaRun ::
  "tools \<Rightarrow> downloadModel \<Rightarrow> msg option \<Rightarrow> string list \<Rightarrow> event list
     \<Rightarrow> (downloadModel \<times> error option \<times> string list) option" where
  "teaRun t m pending called [] = None"
| "teaRun t m pending called (e # events) =
     (case e of
        RunFailure err \<Rightarrow> Some (m, Some err, called)
      | _ \<Rightarrow>
          (case (case e of KeyPress k \<Rightarrow> Some (KeyMsg k) | Tick \<Rightarrow> Some TickMsg | _ \<Rightarrow> pending) of
             None \<Rightarrow> teaRun t m pending called events
           | Some message \<Rightarrow>
               (case Update m message of
                  (m', Quit) \<Rightarrow> Some (m', None, called)
                | (m', RunCurrentStep) \<Rightarrow>
                    teaRun t m' (Some (fst (runCurrentStep t m')))
                      (called @ snd (runCurrentStep t m')) events
                | (m', _) \<Rightarrow>
                    teaRun t m' (if e = CmdDone then None else pending) called events)))"

definition runWithSpinner ::
  "tools \<Rightarrow> event list \<Rightarrow> string \<Rightarrow> DownloadOptions \<Rightarrow> (error option \<times> string list) option" where
  "runWithSpinner t events url opts =
     (case teaRun t (initialDownloadModel url opts) (Some startDownloadMsg) [] events of
        None \<Rightarrow> None
      | Some (finalModel, Some err, called) \<Rightarrow> Some (Some err, called)
      | Some (finalModel, None, called) \<Rightarrow> Some (dm_err finalModel, called))"

definition runDownload ::
  "tools \<Rightarrow> event list \<Rightarrow> string \<Rightarrow> DownloadOptions \<Rightarrow> (error option \<times> string list) option" where
  "runDownload t events url opts =
     (case (if Video opts \<or> Audio opts \<or> Subs opts then runWithSpinner t events url opts
            else Some (None, [])) of
        None \<Rightarrow> None
      | Some (Some e, called) \<Rightarrow> Some (Some e, called)
      | Some (None, called) \<Rightarrow>
          (if Summary opts then
             (let prompt = Prompt opts;
                  prompt = (if prompt = [] then defaultPrompt else prompt)
              in Some (summaryTool t url prompt, called @ [''summary'']))
           else Some (None, called)))"

(*DEFS*)

section \<open>Properties of the output path resolver\<close>

lemma HasPrefix_single: "HasPrefix (c # s) [d] = (c = d)"
  by (auto simp: HasPrefix_def)

lemma sanitizeFilename_Nil: "sanitizeFilename [] = []"
  by (simp add: sanitizeFilename_def)

lemma sanitizeFilename_Cons:
  "sanitizeFilename (c # s) =
     (if c \<in> {CHR ''/'', CHR 0x5C, CHR '':''} then CHR ''-'' # sanitizeFilename s
      else if c \<in> {CHR ''*'', CHR ''?'', CHR 0x22, CHR ''<'', CHR ''>'', CHR ''|''}
      then sanitizeFilename s
      else c # sanitizeFilename s)"
  by (simp add: sanitizeFilename_def HasPrefix_single)

text \<open>
  Claim C3. For every input string, \<open>sanitizeFilename\<close> turns each slash, backslash
  and colon into a hyphen, deletes each asterisk, question mark, double quote, angle
  bracket and vertical bar, and copies every other byte; so none of these nine
  characters occurs in its output.
\<close>

theorem sanitizeFilename_spec:
  "sanitizeFilename s =
     concat (map (\<lambda>c. if c \<in> {CHR ''/'', CHR 0x5C, CHR '':''} then ''-''
                       else if c \<in> {CHR ''*'', CHR ''?'', CHR 0x22, CHR ''<'', CHR ''>'', CHR ''|''}
                       then [] else [c]) s)
   \<and> set (sanitizeFilename s)
       \<inter> {CHR ''/'', CHR 0x5C, CHR '':'', CHR ''*'', CHR ''?'', CHR 0x22, CHR ''<'', CHR ''>'',
          CHR ''|''} = {}"
proof (induction s)
  case Nil
  show ?case by (simp add: sanitizeFilename_Nil)
next
  case (Cons c s)
  then show ?case
    by (auto simp: sanitizeFilename_Cons)
qed

theorem sanitizeFilename_spec_witness:
  "sanitizeFilename ''a/b:c*d?e<f>g|h'' = ''a-b-cdefgh''"
  using sanitizeFilename_spec [of "''a/b:c*d?e<f>g|h''"] by simp

section \<open>Properties of the subtitle search directory\<close>

lemma HasPrefix_sep: "HasPrefix s [c] \<longleftrightarrow> (s \<noteq> [] \<and> hd s = c)"
  by (cases s) (auto simp: HasPrefix_def)

lemma HasPrefix_drop_notin:
  assumes "c \<notin> set s"
  shows "\<not> HasPrefix (drop i s) [c]"
proof
  assume "HasPrefix (drop i s) [c]"
  then have "drop i s \<noteq> []" and "hd (drop i s) = c"
    by (simp_all add: HasPrefix_sep)
  then have "c \<in> set (drop i s)"
    using hd_in_set by blast
  then show False
    using assms by (blast dest: in_set_dropD)
qed

lemma LastIndex_none:
  assumes "c \<notin> set s"
  shows "LastIndex s [c] = - 1"
proof -
  have "filter (\<lambda>i. HasPrefix (drop i s) [c]) (rev [0..<Suc (length s)]) = []"
    using HasPrefix_drop_notin [OF assms] by (simp add: filter_empty_conv)
  then show ?thesis
    by (simp add: LastIndex_def)
qed

lemma LastIndex_last:
  assumes "c \<notin> set base"
  shows "LastIndex (dir @ c # base) [c] = int (length dir)"
proof -
  let ?s = "dir @ c # base"
  define P where "P = (\<lambda>i. HasPrefix (drop i ?s) [c])"
  define before where "before = [0..<length dir]"
  define after where "after = [Suc (length dir)..<length dir + Suc (Suc (length base))]"
  have "[0..<length dir + Suc (Suc (length base))] =
      [0..<length dir] @ [length dir..<length dir + Suc (Suc (length base))]"
    by (rule upt_add_eq_append) simp
  moreover have "[length dir..<length dir + Suc (Suc (length base))] =
      length dir # [Suc (length dir)..<length dir + Suc (Suc (length base))]"
    by (rule upt_conv_Cons) simp
  moreover have "Suc (length ?s) = length dir + Suc (Suc (length base))"
    by simp
  ultimately have split: "[0..<Suc (length ?s)] = before @ length dir # after"
    unfolding before_def after_def by (simp only:)
  have "\<forall>i \<in> set after. \<not> P i"
  proof
    fix i
    assume "i \<in> set after"
    then have "Suc (length dir) \<le> i"
      unfolding after_def set_upt atLeastLessThan_iff by (rule conjunct1)
    then obtain k where "i = Suc (length dir + k)"
      by (auto simp: le_iff_add)
    then have "drop i ?s = drop (i - Suc (length dir)) base"
      by simp
    then show "\<not> P i"
      using HasPrefix_drop_notin [OF assms] by (simp add: P_def)
  qed
  then have "filter P after = []"
    by (rule filter_False)
  then have "filter P (rev after) = []"
    by (simp add: rev_filter [symmetric])
  moreover have "P (length dir)"
    by (simp add: HasPrefix_def P_def)
  ultimately have "filter P (rev (before @ length dir # after)) =
      length dir # filter P (rev before)"
    by simp
  then have "filter P (rev [0..<Suc (length ?s)]) = length dir # filter P (rev before)"
    by (simp only: split)
  then show ?thesis
    unfolding LastIndex_def P_def by (simp only: list.case)
qed

text \<open>
  Claim C8, as the code has it. In the multi-select variant, when the fetch tool has
  succeeded: if the custom output stem has a separator and something stands before its
  last separator, the directory searched for caption files is what stands before that
  separator; if the stem has no separator, or its only separator is its first byte,
  the directory is the configured output directory, or the current directory when
  none is configured.
\<close>

theorem searchDir_spec:
  "(customOutPath g = dir @ ''/'' @ base \<and> CHR ''/'' \<notin> set base \<and> dir \<noteq> [] \<longrightarrow>
      doDownloadSubs g (\<lambda>args. None) processSubtitles url = processSubtitles dir)
   \<and> (CHR ''/'' \<notin> set (customOutPath g)
        \<or> (\<exists>base. customOutPath g = ''/'' @ base \<and> CHR ''/'' \<notin> set base) \<longrightarrow>
      doDownloadSubs g (\<lambda>args. None) processSubtitles url =
        processSubtitles (if outputDir g \<noteq> [] then outputDir g else ''.''))"
proof (intro conjI impI)
  assume "customOutPath g = dir @ ''/'' @ base \<and> CHR ''/'' \<notin> set base \<and> dir \<noteq> []"
  then show "doDownloadSubs g (\<lambda>args. None) processSubtitles url = processSubtitles dir"
    using LastIndex_last [of "CHR ''/''" base dir]
    by (simp add: doDownloadSubs_def Let_def)
next
  assume "CHR ''/'' \<notin> set (customOutPath g)
        \<or> (\<exists>base. customOutPath g = ''/'' @ base \<and> CHR ''/'' \<notin> set base)"
  then have "LastIndex (customOutPath g) ''/'' \<le> 0"
    using LastIndex_none [of "CHR ''/''" "customOutPath g"] LastIndex_last [of "CHR ''/''" _ "[]"]
    by auto
  then show "doDownloadSubs g (\<lambda>args. None) processSubtitles url =
        processSubtitles (if outputDir g \<noteq> [] then outputDir g else ''.'')"
    by (simp add: doDownloadSubs_def Let_def)
qed

theorem searchDir_spec_witness:
  "doDownloadSubs \<lparr>outputDir = ''out'', customOutPath = ''clips/talk''\<rparr> (\<lambda>args. None) Some ''u''
     = Some ''clips''
   \<and> doDownloadSubs \<lparr>outputDir = ''out'', customOutPath = ''talk''\<rparr> (\<lambda>args. None) Some ''u''
     = Some ''out''"
  using searchDir_spec [of "\<lparr>outputDir = ''out'', customOutPath = ''clips/talk''\<rparr>" "''clips''" "''talk''" Some "''u''"]
    searchDir_spec [of "\<lparr>outputDir = ''out'', customOutPath = ''talk''\<rparr>" "[]" "[]" Some "''u''"]
  by simp

text \<open>
  The stem \<open>/video\<close> contains a separator and nothing stands before it, yet the
  directory searched is the current directory.
\<close>

theorem searchDir_counterexample:
  "Contains ''/video'' ''/''
   \<and> take (nat (LastIndex ''/video'' ''/'')) ''/video'' = []
   \<and> doDownloadSubs \<lparr>outputDir = [], customOutPath = ''/video''\<rparr> (\<lambda>args. None) Some ''u''
       = Some ''.''"
  by (simp add: doDownloadSubs_def LastIndex_def HasPrefix_def)

text \<open>The single-select variant never looks at the custom output stem.\<close>

lemma downloadSubs_searchDir:
  "downloadSubs g (\<lambda>args. None) processSubtitles url =
     processSubtitles (if outputDir g \<noteq> [] then outputDir g else ''.'')"
  by (simp add: downloadSubs_def)

section \<open>Properties of the step orchestrator\<close>

lemma steps_initial:
  "dm_steps (initialDownloadModel url opts) =
     filter (\<lambda>s. (s = ''video'' \<and> Video opts) \<or> (s = ''audio'' \<and> Audio opts)
                 \<or> (s = ''subs'' \<and> Subs opts))
       [''video'', ''audio'', ''subs'']"
  by (simp add: initialDownloadModel_def Let_def)

lemma initial_fields:
  "dm_step (initialDownloadModel url opts) = 0"
  "dm_err (initialDownloadModel url opts) = None"
  "dm_url (initialDownloadModel url opts) = url"
  by (simp_all add: initialDownloadModel_def Let_def)

lemma runCurrentStep_in:
  assumes "dm_step m < length (dm_steps m)"
    and "set (dm_steps m) \<subseteq> {''video'', ''audio'', ''subs''}"
  shows "runCurrentStep t m =
     (downloadDoneMsg (stepResult t (dm_url m) (dm_steps m ! dm_step m)),
      [dm_steps m ! dm_step m])"
proof -
  have "dm_steps m ! dm_step m \<in> {''video'', ''audio'', ''subs''}"
    using assms nth_mem by blast
  then show ?thesis
    using assms(1) by (auto simp: runCurrentStep_def stepResult_def Let_def)
qed

lemma runCurrentStep_out:
  "length (dm_steps m) \<le> dm_step m \<Longrightarrow> runCurrentStep t m = (downloadDoneMsg None, [])"
  by (simp add: runCurrentStep_def)

lemma Update_start: "Update m startDownloadMsg = (m, RunCurrentStep)"
  by (simp add: Update_def)

lemma Update_tick: "Update m TickMsg = (m, SpinnerTick)"
  by (simp add: Update_def)

lemma Update_key:
  "Update m (KeyMsg k) = (if keyString k = ''ctrl+c'' then (m, Quit) else (m, NoCmd))"
  by (simp add: Update_def)

lemma Update_failed:
  "Update m (downloadDoneMsg (Some err)) = (m\<lparr>dm_err := Some err, dm_done := True\<rparr>, Quit)"
  by (simp add: Update_def)

lemma Update_next:
  "Suc (dm_step m) < length (dm_steps m) \<Longrightarrow>
   Update m (downloadDoneMsg None) =
     (m\<lparr>dm_step := Suc (dm_step m),
        dm_status := getStatusText (m\<lparr>dm_step := Suc (dm_step m)\<rparr>)\<rparr>, RunCurrentStep)"
  by (simp add: Update_def Let_def)

lemma Update_last:
  "\<not> Suc (dm_step m) < length (dm_steps m) \<Longrightarrow>
   Update m (downloadDoneMsg None) = (m\<lparr>dm_step := Suc (dm_step m), dm_done := True\<rparr>, Quit)"
  by (simp add: Update_def Let_def)

text \<open>Whatever happens around the program, the steps called are a prefix of the step list.\<close>

lemma teaRun_prefix:
  assumes "set (dm_steps m) \<subseteq> {''video'', ''audio'', ''subs''}"
    and "pending = Some startDownloadMsg \<longrightarrow> called = take (dm_step m) (dm_steps m)"
    and "\<forall>r. pending = Some (downloadDoneMsg r) \<longrightarrow> called = take (Suc (dm_step m)) (dm_steps m)"
    and "prefix called (dm_steps m)"
    and "teaRun t m pending called events = Some (m', err, called')"
  shows "prefix called' (dm_steps m)"
  using assms
proof (induction events arbitrary: m pending called)
  case Nil
  then show ?case by simp
next
  case (Cons e events)
  note IH = Cons.IH
  note sub = Cons.prems(1)
  note run = Cons.prems(5)
  show ?case
  proof (cases e)
    case (RunFailure x)
    with run Cons.prems(4) show ?thesis by simp
  next
    case (KeyPress k)
    show ?thesis
    proof (cases "keyString k = ''ctrl+c''")
      case True
      with run KeyPress Cons.prems(4) show ?thesis by (simp add: Update_key)
    next
      case False
      with run KeyPress have "teaRun t m pending called events = Some (m', err, called')"
        by (simp add: Update_key)
      from IH [OF sub Cons.prems(2,3,4) this] show ?thesis .
    qed
  next
    case Tick
    with run have "teaRun t m pending called events = Some (m', err, called')"
      by (simp add: Update_tick)
    from IH [OF sub Cons.prems(2,3,4) this] show ?thesis .
  next
    case CmdDone
    show ?thesis
    proof (cases pending)
      case None
      with run CmdDone have "teaRun t m pending called events = Some (m', err, called')"
        by simp
      from IH [OF sub Cons.prems(2,3,4) this] show ?thesis .
    next
      case (Some message)
      show ?thesis
      proof (cases message)
        case (KeyMsg k)
        show ?thesis
        proof (cases "keyString k = ''ctrl+c''")
          case True
          with run CmdDone Some KeyMsg Cons.prems(4) show ?thesis by (simp add: Update_key)
        next
          case False
          with run CmdDone Some KeyMsg
          have "teaRun t m None called events = Some (m', err, called')"
            by (simp add: Update_key)
          from IH [OF sub _ _ Cons.prems(4) this] show ?thesis by simp
        qed
      next
        case TickMsg
        with run CmdDone Some
        have "teaRun t m None called events = Some (m', err, called')"
          by (simp add: Update_tick)
        from IH [OF sub _ _ Cons.prems(4) this] show ?thesis by simp
      next
        case startDownloadMsg
        with Cons.prems(2) Some have called: "called = take (dm_step m) (dm_steps m)"
          by simp
        from run CmdDone Some startDownloadMsg
        have rec: "teaRun t m (Some (fst (runCurrentStep t m)))
            (called @ snd (runCurrentStep t m)) events = Some (m', err, called')"
          by (simp add: Update_start)
        show ?thesis
        proof (cases "dm_step m < length (dm_steps m)")
          case True
          have c: "called @ snd (runCurrentStep t m) = take (Suc (dm_step m)) (dm_steps m)"
            using True called by (simp add: runCurrentStep_in [OF True sub] take_Suc_conv_app_nth)
          have "prefix (take (Suc (dm_step m)) (dm_steps m)) (dm_steps m)"
            by (rule take_is_prefix)
          from IH [OF sub _ _ _ rec] c this True show ?thesis
            by (simp add: runCurrentStep_in [OF True sub])
        next
          case False
          then have out: "runCurrentStep t m = (downloadDoneMsg None, [])"
            by (simp add: runCurrentStep_out)
          from IH [OF sub _ _ _ rec] called Cons.prems(4) False show ?thesis
            by (simp add: out)
        qed
      next
        case (downloadDoneMsg r)
        with Cons.prems(3) Some have called: "called = take (Suc (dm_step m)) (dm_steps m)"
          by simp
        show ?thesis
        proof (cases r)
          case (Some e)
          with run CmdDone \<open>pending = Some message\<close> downloadDoneMsg Cons.prems(4) show ?thesis
            by (simp add: Update_failed)
        next
          case None
          show ?thesis
          proof (cases "Suc (dm_step m) < length (dm_steps m)")
            case False
            with run CmdDone \<open>pending = Some message\<close> downloadDoneMsg None Cons.prems(4)
            show ?thesis
              by (simp add: Update_last)
          next
            case True
            define m2 where "m2 = m\<lparr>dm_step := Suc (dm_step m),
                dm_status := getStatusText (m\<lparr>dm_step := Suc (dm_step m)\<rparr>)\<rparr>"
            have m2: "dm_steps m2 = dm_steps m" "dm_step m2 = Suc (dm_step m)"
              by (simp_all add: m2_def)
            have lt2: "dm_step m2 < length (dm_steps m2)"
              using True m2 by simp
            have sub2: "set (dm_steps m2) \<subseteq> {''video'', ''audio'', ''subs''}"
              using sub m2 by simp
            from run CmdDone \<open>pending = Some message\<close> downloadDoneMsg None True
            have rec: "teaRun t m2 (Some (fst (runCurrentStep t m2)))
                (called @ snd (runCurrentStep t m2)) events = Some (m', err, called')"
              by (simp add: Update_next m2_def)
            have c: "called @ snd (runCurrentStep t m2) = take (Suc (dm_step m2)) (dm_steps m2)"
              using True called m2
              by (simp add: runCurrentStep_in [OF lt2 sub2] take_Suc_conv_app_nth)
            have "prefix (take (Suc (dm_step m2)) (dm_steps m2)) (dm_steps m2)"
              by (rule take_is_prefix)
            from IH [OF sub2 _ _ _ rec] c this have "prefix called' (dm_steps m2)"
              by (simp add: runCurrentStep_in [OF lt2 sub2])
            then show ?thesis
              using m2 by simp
          qed
        qed
      qed
    qed
  qed
qed

text \<open>Ticks and keys other than ctrl+c leave a run as it is.\<close>

lemma teaRun_skip:
  assumes "\<forall>e \<in> set events. e = CmdDone \<or> e = Tick
              \<or> (\<exists>k. e = KeyPress k \<and> keyString k \<noteq> ''ctrl+c'')"
  shows "teaRun t m pending called events =
     teaRun t m pending called (replicate (length (filter (\<lambda>e. e = CmdDone) events)) CmdDone)"
  using assms
proof (induction events arbitrary: m pending called)
  case Nil
  then show ?case by simp
next
  case (Cons e events)
  then have IH: "teaRun t m pending called events =
      teaRun t m pending called (replicate (length (filter (\<lambda>e. e = CmdDone) events)) CmdDone)"
    for m pending called
    by simp
  from Cons.prems consider "e = CmdDone" | "e = Tick"
    | k where "e = KeyPress k" "keyString k \<noteq> ''ctrl+c''"
    by auto
  then show ?case
  proof cases
    case 1
    then show ?thesis
      by (simp add: IH split: option.splits prod.splits cmd.splits)
  next
    case 2
    then show ?thesis
      by (simp add: IH Update_tick)
  next
    case 3
    then show ?thesis
      by (simp add: IH Update_key)
  qed
qed

text \<open>
  The run from the moment step \<open>i\<close> is in flight, when nothing interrupts it and
  every command comes back.
\<close>

lemma teaRun_done:
  assumes "set (dm_steps m) \<subseteq> {''video'', ''audio'', ''subs''}"
    and "dm_step m < length (dm_steps m)"
    and "dm_err m = None"
    and "length (dm_steps m) - dm_step m \<le> n"
  shows "\<exists>m'. teaRun t m (Some (downloadDoneMsg (stepResult t (dm_url m) (dm_steps m ! dm_step m))))
             called (replicate n CmdDone) =
           Some (m', None,
             called @ tl (take (Suc (length (takeWhile (\<lambda>s. stepResult t (dm_url m) s = None)
                                    (drop (dm_step m) (dm_steps m)))))
                                 (drop (dm_step m) (dm_steps m))))
         \<and> dm_err m' = (case dropWhile (\<lambda>s. stepResult t (dm_url m) s = None)
                                (drop (dm_step m) (dm_steps m)) of
                          [] \<Rightarrow> None | s # _ \<Rightarrow> stepResult t (dm_url m) s)"
  using assms
proof (induction "length (dm_steps m) - dm_step m" arbitrary: m called n)
  case 0
  then show ?case by simp
next
  case (Suc d)
  let ?i = "dm_step m"
  let ?steps = "dm_steps m"
  let ?ok = "\<lambda>s. stepResult t (dm_url m) s = None"
  obtain n' where n: "n = Suc n'"
    using Suc.hyps(2) Suc.prems(4) by (cases n) auto
  have drop_i: "drop ?i ?steps = ?steps ! ?i # drop (Suc ?i) ?steps"
    using Suc.prems by (simp add: Cons_nth_drop_Suc)
  show ?case
  proof (cases "stepResult t (dm_url m) (?steps ! ?i)")
    case (Some e)
    then show ?thesis
      by (simp add: n Update_failed drop_i)
  next
    case None
    show ?thesis
    proof (cases "Suc ?i < length ?steps")
      case False
      then have "drop (Suc ?i) ?steps = []" by simp
      then show ?thesis
        using None False Suc.prems(3) by (simp add: n Update_last drop_i)
    next
      case True
      define m2 where "m2 = m\<lparr>dm_step := Suc ?i,
          dm_status := getStatusText (m\<lparr>dm_step := Suc ?i\<rparr>)\<rparr>"
      have m2: "dm_steps m2 = ?steps" "dm_step m2 = Suc ?i" "dm_url m2 = dm_url m"
        "dm_err m2 = None"
        using Suc.prems by (simp_all add: m2_def)
      have prems2: "set (dm_steps m2) \<subseteq> {''video'', ''audio'', ''subs''}"
        "dm_step m2 < length (dm_steps m2)" "dm_err m2 = None"
        "length (dm_steps m2) - dm_step m2 \<le> n'"
        using Suc.prems True m2 n by simp_all
      have run: "runCurrentStep t m2 =
          (downloadDoneMsg (stepResult t (dm_url m) (?steps ! Suc ?i)), [?steps ! Suc ?i])"
        using runCurrentStep_in [OF prems2(2,1), of t] m2 by simp
      have d: "d = length (dm_steps m2) - dm_step m2"
        using Suc.hyps(2) m2 by simp
      have step: "teaRun t m (Some (downloadDoneMsg (stepResult t (dm_url m) (?steps ! ?i))))
            called (replicate n CmdDone) =
          teaRun t m2 (Some (downloadDoneMsg (stepResult t (dm_url m2) (dm_steps m2 ! dm_step m2))))
            (called @ [?steps ! Suc ?i]) (replicate n' CmdDone)"
        using None True by (simp add: n Update_next m2_def [symmetric] run m2)
      have drop_Suc: "drop (Suc ?i) ?steps = ?steps ! Suc ?i # drop (Suc (Suc ?i)) ?steps"
        using True by (simp add: Cons_nth_drop_Suc)
      from Suc.hyps(1) [OF d prems2, of "called @ [?steps ! Suc ?i]", unfolded m2]
      obtain m' where
        "teaRun t m2 (Some (downloadDoneMsg (stepResult t (dm_url m) (?steps ! Suc ?i))))
            (called @ [?steps ! Suc ?i]) (replicate n' CmdDone) =
          Some (m', None, (called @ [?steps ! Suc ?i])
               @ tl (take (Suc (length (takeWhile ?ok (drop (Suc ?i) ?steps))))
                       (drop (Suc ?i) ?steps)))"
        and "dm_err m' = (case dropWhile ?ok (drop (Suc ?i) ?steps) of
                           [] \<Rightarrow> None | s # _ \<Rightarrow> stepResult t (dm_url m) s)"
        by blast
      then show ?thesis
        using None step m2 by (simp add: drop_i) (simp add: drop_Suc)
    qed
  qed
qed

lemma runWithSpinner_uninterrupted:
  assumes "\<forall>e \<in> set events. e = CmdDone \<or> e = Tick
              \<or> (\<exists>k. e = KeyPress k \<and> keyString k \<noteq> ''ctrl+c'')"
    and "Suc (max 1 (length (dm_steps (initialDownloadModel url opts))))
           \<le> length (filter (\<lambda>e. e = CmdDone) events)"
  shows "runWithSpinner t events url opts =
     Some ((case dropWhile (\<lambda>s. stepResult t url s = None) (dm_steps (initialDownloadModel url opts)) of
              [] \<Rightarrow> None | s # _ \<Rightarrow> stepResult t url s),
           take (Suc (length (takeWhile (\<lambda>s. stepResult t url s = None)
                               (dm_steps (initialDownloadModel url opts)))))
             (dm_steps (initialDownloadModel url opts)))"
proof -
  let ?m = "initialDownloadModel url opts"
  let ?steps = "dm_steps ?m"
  let ?ok = "\<lambda>s. stepResult t url s = None"
  define n where "n = length (filter (\<lambda>e. e = CmdDone) events)"
  obtain n1 where n1: "n = Suc n1" "max 1 (length ?steps) \<le> n1"
    using assms(2) by (cases n) (auto simp: n_def)
  have sub: "set ?steps \<subseteq> {''video'', ''audio'', ''subs''}"
    by (auto simp: steps_initial)
  have start: "teaRun t ?m (Some startDownloadMsg) [] events =
      teaRun t ?m (Some (fst (runCurrentStep t ?m))) (snd (runCurrentStep t ?m))
        (replicate n1 CmdDone)"
    by (simp add: teaRun_skip [OF assms(1)] n_def [symmetric] n1 Update_start)
  show ?thesis
  proof (cases "?steps = []")
    case True
    obtain n2 where n2: "n1 = Suc n2"
      using n1(2) by (cases n1) auto
    have "runCurrentStep t ?m = (downloadDoneMsg None, [])"
      using True by (simp add: runCurrentStep_out)
    then have "teaRun t ?m (Some startDownloadMsg) [] events =
        Some (?m\<lparr>dm_step := Suc 0, dm_done := True\<rparr>, None, [])"
      using True start by (simp add: n2 Update_last initial_fields)
    then show ?thesis
      using True by (simp add: runWithSpinner_def initial_fields)
  next
    case False
    then have lt: "dm_step ?m < length ?steps"
      by (simp add: initial_fields)
    have le: "length ?steps - dm_step ?m \<le> n1"
      using n1(2) by (simp add: initial_fields)
    have run: "runCurrentStep t ?m =
        (downloadDoneMsg (stepResult t (dm_url ?m) (?steps ! dm_step ?m)), [?steps ! dm_step ?m])"
      by (rule runCurrentStep_in [OF lt sub])
    from teaRun_done [OF sub lt _ le, of t "[?steps ! dm_step ?m]", unfolded initial_fields]
    obtain m' where
      "teaRun t ?m (Some (downloadDoneMsg (stepResult t url (?steps ! 0)))) [?steps ! 0]
          (replicate n1 CmdDone) =
        Some (m', None, [?steps ! 0] @ tl (take (Suc (length (takeWhile ?ok ?steps))) ?steps))"
      and err: "dm_err m' = (case dropWhile ?ok ?steps of [] \<Rightarrow> None | s # _ \<Rightarrow> stepResult t url s)"
      by auto
    moreover have "[?steps ! 0] @ tl (take (Suc (length (takeWhile ?ok ?steps))) ?steps)
        = take (Suc (length (takeWhile ?ok ?steps))) ?steps"
      using False by (cases ?steps) auto
    ultimately have "teaRun t ?m (Some startDownloadMsg) [] events =
        Some (m', None, take (Suc (length (takeWhile ?ok ?steps))) ?steps)"
      using start run by (simp add: initial_fields)
    then show ?thesis
      using err by (simp add: runWithSpinner_def)
  qed
qed

text \<open>
  Claim C6. The step list holds the requested artifacts in the order video, audio,
  subtitles, whatever the order in which the boxes of the menu were ticked: ticking
  subtitles and then video gives the steps video, subtitles, as ticking video and then
  subtitles does. Whatever happens around the program (key presses, spinner ticks, a
  failure of the terminal library), the steps a run has called are a prefix of that
  list; when nothing interrupts the run and every command comes back, they are the
  list up to the first step that fails. The single-select variant calls exactly the one
  function of its mode, and for the mode for everything it calls video, audio,
  subtitles, up to the first that fails.
\<close>

theorem steps_fixed_order:
  "dm_steps (initialDownloadModel url opts) =
     filter (\<lambda>s. (s = ''video'' \<and> Video opts) \<or> (s = ''audio'' \<and> Audio opts)
                 \<or> (s = ''subs'' \<and> Subs opts))
       [''video'', ''audio'', ''subs'']
   \<and> (\<forall>err called. runWithSpinner t events url opts = Some (err, called) \<longrightarrow>
         prefix called (dm_steps (initialDownloadModel url opts)))
   \<and> ((\<forall>e \<in> set events. e = CmdDone \<or> e = Tick
                \<or> (\<exists>k. e = KeyPress k \<and> keyString k \<noteq> ''ctrl+c''))
        \<and> Suc (max 1 (length (dm_steps (initialDownloadModel url opts))))
             \<le> length (filter (\<lambda>e. e = CmdDone) events) \<longrightarrow>
        runWithSpinner t events url opts =
          Some ((case dropWhile (\<lambda>s. stepResult t url s = None)
                        (dm_steps (initialDownloadModel url opts)) of
                   [] \<Rightarrow> None | s # _ \<Rightarrow> stepResult t url s),
                take (Suc (length (takeWhile (\<lambda>s. stepResult t url s = None)
                                    (dm_steps (initialDownloadModel url opts)))))
                  (dm_steps (initialDownloadModel url opts))))
   \<and> dm_steps (initialDownloadModel url
         (getOptions (foldl (\<lambda>m k. fst (Update_model g ca m (MenuKeyMsg k)))
            (fst (Update_model g ca (initialModel g ca typed) (titleMsg title)))
            [KeyNamed ''down'', KeyNamed ''down'', KeyRunes '' '',
             KeyNamed ''up'', KeyNamed ''up'', KeyRunes '' '']))) = [''video'', ''subs'']
   \<and> dm_steps (initialDownloadModel url
         (getOptions (foldl (\<lambda>m k. fst (Update_model g ca m (MenuKeyMsg k)))
            (fst (Update_model g ca (initialModel g ca typed) (titleMsg title)))
            [KeyRunes '' '', KeyNamed ''down'', KeyNamed ''down'', KeyRunes '' '']))) =
       [''video'', ''subs'']
   \<and> snd (runDownload_Mode t url ModeAll) =
       take (Suc (length (takeWhile (\<lambda>s. stepResult t url s = None)
                           [''video'', ''audio'', ''subs''])))
         [''video'', ''audio'', ''subs'']
   \<and> runDownload_Mode t url ModeVideo = (videoTool t url, [''video''])
   \<and> runDownload_Mode t url ModeAudio = (audioTool t url, [''audio''])
   \<and> runDownload_Mode t url ModeSubs = (subsTool t url, [''subs''])"
proof -
  have "\<forall>err called. runWithSpinner t events url opts = Some (err, called) \<longrightarrow>
         prefix called (dm_steps (initialDownloadModel url opts))"
  proof (intro allI impI)
    fix err called
    assume "runWithSpinner t events url opts = Some (err, called)"
    then obtain m' err' where
      "teaRun t (initialDownloadModel url opts) (Some startDownloadMsg) [] events =
         Some (m', err', called)"
      by (auto simp: runWithSpinner_def split: option.splits)
    moreover have "set (dm_steps (initialDownloadModel url opts)) \<subseteq> {''video'', ''audio'', ''subs''}"
      by (auto simp: steps_initial)
    ultimately show "prefix called (dm_steps (initialDownloadModel url opts))"
      by (rule teaRun_prefix [rotated 4]) (simp_all add: initial_fields)
  qed
  moreover have "dm_steps (initialDownloadModel url
         (getOptions (foldl (\<lambda>m k. fst (Update_model g ca m (MenuKeyMsg k)))
            (fst (Update_model g ca (initialModel g ca typed) (titleMsg title)))
            [KeyNamed ''down'', KeyNamed ''down'', KeyRunes '' '',
             KeyNamed ''up'', KeyNamed ''up'', KeyRunes '' '']))) = [''video'', ''subs'']"
    by (simp add: steps_initial getOptions_def Update_model_def initialModel_def Let_def)
  moreover have "dm_steps (initialDownloadModel url
         (getOptions (foldl (\<lambda>m k. fst (Update_model g ca m (MenuKeyMsg k)))
            (fst (Update_model g ca (initialModel g ca typed) (titleMsg title)))
            [KeyRunes '' '', KeyNamed ''down'', KeyNamed ''down'', KeyRunes '' '']))) =
       [''video'', ''subs'']"
    by (simp add: steps_initial getOptions_def Update_model_def initialModel_def Let_def)
  moreover have "snd (runDownload_Mode t url ModeAll) =
       take (Suc (length (takeWhile (\<lambda>s. stepResult t url s = None)
                           [''video'', ''audio'', ''subs''])))
         [''video'', ''audio'', ''subs'']"
    by (simp add: runDownload_Mode_def stepResult_def split: option.splits)
  moreover have "runDownload_Mode t url ModeVideo = (videoTool t url, [''video''])"
    "runDownload_Mode t url ModeAudio = (audioTool t url, [''audio''])"
    "runDownload_Mode t url ModeSubs = (subsTool t url, [''subs''])"
    by (simp_all add: runDownload_Mode_def)
  ultimately show ?thesis
    using steps_initial [of url opts] runWithSpinner_uninterrupted [of events url opts t]
    by blast
qed

theorem steps_fixed_order_witness:
  "runWithSpinner
     \<lparr>videoTool = (\<lambda>u. None), audioTool = (\<lambda>u. None), subsTool = (\<lambda>u. None),
      summaryTool = (\<lambda>u p. None)\<rparr>
     [CmdDone, Tick, CmdDone, KeyPress (KeyNamed ''up''), CmdDone]
     ''u'' \<lparr>Video = True, Audio = False, Subs = True, Summary = False, Prompt = []\<rparr>
     = Some (None, [''video'', ''subs''])"
  using steps_fixed_order
    [where url = "''u''"
       and opts = "\<lparr>Video = True, Audio = False, Subs = True, Summary = False, Prompt = []\<rparr>"
       and t = "\<lparr>videoTool = (\<lambda>u. None), audioTool = (\<lambda>u. None), subsTool = (\<lambda>u. None),
                 summaryTool = (\<lambda>u p. None)\<rparr>"
       and events = "[CmdDone, Tick, CmdDone, KeyPress (KeyNamed ''up''), CmdDone]"]
  by (simp add: stepResult_def)

text \<open>
  A failing step ends the run: when nothing interrupts the run, the calls made are the
  steps up to the failing one, and the summary is not asked for.
\<close>

lemma runDownload_stops:
  assumes "Video opts \<or> Audio opts \<or> Subs opts"
    and "\<forall>e \<in> set events. e = CmdDone \<or> e = Tick
              \<or> (\<exists>k. e = KeyPress k \<and> keyString k \<noteq> ''ctrl+c'')"
    and "Suc (max 1 (length (dm_steps (initialDownloadModel url opts))))
           \<le> length (filter (\<lambda>e. e = CmdDone) events)"
    and "dm_steps (initialDownloadModel url opts) = before @ failing # after"
    and "\<forall>s \<in> set before. stepResult t url s = None"
    and "stepResult t url failing = Some e"
  shows "runDownload t events url opts = Some (Some e, before @ [failing])"
proof -
  have "takeWhile (\<lambda>s. stepResult t url s = None) (before @ failing # after) = before"
    using assms(5,6) by (simp add: takeWhile_append2)
  moreover have "dropWhile (\<lambda>s. stepResult t url s = None) (before @ failing # after)
      = failing # after"
    using assms(5,6) by (simp add: dropWhile_append2)
  ultimately show ?thesis
    using assms(1,4,6) runWithSpinner_uninterrupted [OF assms(2,3), of t]
    by (simp add: runDownload_def)
qed

text \<open>
  Claim C7. When the video step fails, no later step runs in either variant. The
  single-select variant, run for everything, reports the error with the stage before
  it (\<open>video download failed: ...\<close>); the multi-select variant reports the
  error of the fetch tool as it is, and the stage is not named.
\<close>

theorem video_failure_report:
  "runDownload
     \<lparr>videoTool = (\<lambda>u. Some ''exit status 1''), audioTool = (\<lambda>u. None),
      subsTool = (\<lambda>u. None), summaryTool = (\<lambda>u p. None)\<rparr>
     [CmdDone, CmdDone]
     ''u'' \<lparr>Video = True, Audio = True, Subs = True, Summary = True, Prompt = []\<rparr>
     = Some (Some ''exit status 1'', [''video''])
   \<and> runDownload_Mode
     \<lparr>videoTool = (\<lambda>u. Some ''exit status 1''), audioTool = (\<lambda>u. None),
      subsTool = (\<lambda>u. None), summaryTool = (\<lambda>u p. None)\<rparr>
     ''u'' ModeAll
     = (Some ''video download failed: exit status 1'', [''video''])"
  by (simp add: runDownload_def runWithSpinner_def initialDownloadModel_def Update_def
        runCurrentStep_def getStatusText_def runDownload_Mode_def Let_def)

section \<open>Properties of the subtitle normalizer\<close>

lemma decodeRune_ascii: "byte c < 0x80 \<Longrightarrow> decodeRune (c # s) = (byte c, 1)"
  by simp

lemma encodeRune_ascii: "byte c < 0x80 \<Longrightarrow> encodeRune (byte c) = [c]"
  by (simp add: encodeRune_def)

lemma stripTags_loop_Nil: "stripTags_loop [] result inTag = result"
  by (simp add: stripTags_loop.simps)

lemma stripTags_loop_ascii:
  "byte c < 0x80 \<Longrightarrow>
   stripTags_loop (c # s) result inTag =
     (if c = CHR ''<'' then stripTags_loop s result True
      else if c = CHR ''>'' then stripTags_loop s result False
      else if \<not> inTag then stripTags_loop s (result @ [c]) inTag
      else stripTags_loop s result inTag)"
proof -
  assume a: "byte c < 0x80"
  have lt: "byte c = 0x3C \<longleftrightarrow> c = CHR ''<''"
    using of_char_eq_iff [of c "CHR ''<''", where ?'a = nat] by simp
  have gt: "byte c = 0x3E \<longleftrightarrow> c = CHR ''>''"
    using of_char_eq_iff [of c "CHR ''>''", where ?'a = nat] by simp
  show ?thesis
    using a by (subst stripTags_loop.simps) (simp add: encodeRune_ascii lt gt)
qed

lemma TrimLeftFunc_Nil: "TrimLeftFunc [] f = []"
  by (simp add: TrimLeftFunc.simps)

lemma TrimLeftFunc_ascii:
  "byte c < 0x80 \<Longrightarrow>
   TrimLeftFunc (c # s) f = (if f (byte c) then TrimLeftFunc s f else c # s)"
  by (subst TrimLeftFunc.simps) simp

lemma TrimRightFunc_Nil: "TrimRightFunc [] f = []"
  by (simp add: TrimRightFunc.simps)

lemma decodeLastRune_ascii:
  "s \<noteq> [] \<Longrightarrow> byte (last s) < 0x80 \<Longrightarrow> decodeLastRune s = (byte (last s), 1)"
  by (simp add: decodeLastRune_def last_conv_nth)

lemma TrimRightFunc_ascii:
  "s \<noteq> [] \<Longrightarrow> byte (last s) < 0x80 \<Longrightarrow>
   TrimRightFunc s f = (if f (byte (last s)) then TrimRightFunc (butlast s) f else s)"
  by (subst TrimRightFunc.simps) (simp add: decodeLastRune_ascii butlast_conv_take)

lemmas eval_simps =
  stripTags_def stripTags_loop_Nil stripTags_loop_ascii TrimSpace_def
  TrimLeftFunc_Nil TrimLeftFunc_ascii TrimRightFunc_Nil TrimRightFunc_ascii
  IsSpace_def HasPrefix_def isTimestamp_def Let_def

lemma decodeRune_valid: "validRune (fst (decodeRune s))"
proof (cases s)
  case Nil
  then show ?thesis by (simp add: validRune_def RuneError_def)
next
  case (Cons c0 s')
  have b: "byte c0 < 256" by simp
  show ?thesis
    unfolding Cons
    using b
    by (auto simp: Let_def inRange_def acceptLo_def acceptHi_def RuneError_def validRune_def
             split: list.splits if_splits)
qed

lemma decodeRune_low:
  assumes "decodeRune s = (r, w)" and "r < 0x80"
  shows "s \<noteq> [] \<and> byte (hd s) = r \<and> w = 1"
proof (cases s)
  case Nil
  with assms show ?thesis by (simp add: RuneError_def)
next
  case (Cons c0 s')
  show ?thesis
    using assms unfolding Cons
    by (auto simp: Let_def inRange_def acceptLo_def acceptHi_def RuneError_def
             split: list.splits if_splits)
qed

lemma decodeRune_append_ascii:
  assumes "a \<noteq> []" and "byte c < 0x80"
  shows "decodeRune (a @ c # rest) = decodeRune a"
proof -
  have n: "\<not> inRange lo 0xBF c" if "0x80 \<le> lo" for lo
    using assms(2) that by (simp add: inRange_def)
  have n1: "\<not> inRange 0x80 0xBF c" "\<not> inRange (acceptLo b) (acceptHi b) c" for b
    using assms(2) by (simp_all add: inRange_def acceptLo_def)
  obtain x1 a1 where a: "a = x1 # a1"
    using assms(1) by (cases a) auto
  show ?thesis
  proof (cases a1)
    case Nil
    then show ?thesis
      unfolding a by (simp add: Let_def n1 split: list.splits)
  next
    case c2: (Cons x2 a2)
    show ?thesis
    proof (cases a2)
      case Nil
      then show ?thesis
        unfolding a c2 by (simp add: Let_def n1 split: list.splits)
    next
      case c3: (Cons x3 a3)
      show ?thesis
      proof (cases a3)
        case Nil
        then show ?thesis
          unfolding a c2 c3 by (simp add: Let_def n1 split: list.splits)
      next
        case (Cons x4 a4)
        then show ?thesis
          unfolding a c2 c3 by (simp add: Let_def split: list.splits)
      qed
    qed
  qed
qed

lemma stripTags_loop_step:
  "s \<noteq> [] \<Longrightarrow>
   stripTags_loop s result inTag =
     (if fst (decodeRune s) = 0x3C
        then stripTags_loop (drop (snd (decodeRune s)) s) result True
      else if fst (decodeRune s) = 0x3E
        then stripTags_loop (drop (snd (decodeRune s)) s) result False
      else if \<not> inTag
        then stripTags_loop (drop (snd (decodeRune s)) s)
               (result @ encodeRune (fst (decodeRune s))) inTag
      else stripTags_loop (drop (snd (decodeRune s)) s) result inTag)"
  by (subst stripTags_loop.simps) (simp add: Let_def split: prod.splits)

lemma drop_decodeRune_shorter:
  "s \<noteq> [] \<Longrightarrow> length (drop (snd (decodeRune s)) s) < length s"
  using decodeRune_width [of s] by simp

lemma stripTags_loop_acc:
  "stripTags_loop s result inTag = result @ stripTags_loop s [] inTag"
proof (induction "length s" arbitrary: s result inTag rule: less_induct)
  case less
  show ?case
  proof (cases "s = []")
    case True
    then show ?thesis by (simp add: stripTags_loop_Nil)
  next
    case False
    let ?rest = "drop (snd (decodeRune s)) s"
    have IH: "stripTags_loop ?rest res t = res @ stripTags_loop ?rest [] t" for res t
      by (rule less) (rule drop_decodeRune_shorter [OF False])
    show ?thesis
      by (subst (1 2) stripTags_loop_step [OF False])
         (simp add: IH [of "result @ encodeRune (fst (decodeRune s))"]
            IH [of "encodeRune (fst (decodeRune s))"] IH [of result])
  qed
qed

lemma encodeRune_ascii_mem:
  assumes "c \<in> set (encodeRune r)" and "byte c < 0x80"
  shows "r = byte c"
proof -
  have m: "byte (char_of (n :: nat)) = n mod 256" for n
    by simp
  show ?thesis
    using assms
    by (auto simp: encodeRune_def m split: if_splits)
qed

lemma decodeRune_low_fst:
  assumes "fst (decodeRune s) < 0x80"
  shows "s \<noteq> []" and "byte (hd s) = fst (decodeRune s)" and "snd (decodeRune s) = 1"
  using decodeRune_low [OF prod.collapse [symmetric] assms] by simp_all

lemma byte_eq_iff: "byte c = byte d \<longleftrightarrow> c = d"
  using of_char_eq_iff [of c d, where ?'a = nat] by simp

lemma stripTags_loop_mem:
  assumes "c \<in> set (stripTags_loop s result inTag)" and "byte c < 0x80"
  shows "c \<in> set result \<or> (c \<in> set s \<and> c \<noteq> CHR ''<'' \<and> c \<noteq> CHR ''>'')"
  using assms
proof (induction "length s" arbitrary: s result inTag rule: less_induct)
  case less
  show ?case
  proof (cases "s = []")
    case True
    with less.prems show ?thesis by (simp add: stripTags_loop_Nil)
  next
    case False
    let ?r = "fst (decodeRune s)"
    let ?rest = "drop (snd (decodeRune s)) s"
    have IH: "c \<in> set (stripTags_loop ?rest res t) \<Longrightarrow>
        c \<in> set res \<or> (c \<in> set ?rest \<and> c \<noteq> CHR ''<'' \<and> c \<noteq> CHR ''>'')" for res t
      using less.hyps [OF drop_decodeRune_shorter [OF False]] less.prems(2) by blast
    have rest: "c \<in> set ?rest \<Longrightarrow> c \<in> set s"
      by (rule in_set_dropD)
    have enc: "c \<in> set s \<and> c \<noteq> CHR ''<'' \<and> c \<noteq> CHR ''>''"
      if "c \<in> set (encodeRune ?r)" "?r \<noteq> 0x3C" "?r \<noteq> 0x3E"
    proof -
      have r: "?r = byte c"
        using that(1) less.prems(2) by (rule encodeRune_ascii_mem)
      then have "byte (hd s) = byte c"
        using decodeRune_low_fst(2) [of s] less.prems(2) by simp
      then have "hd s = c"
        by (simp only: byte_eq_iff)
      then have "c \<in> set s"
        using False hd_in_set by blast
      moreover have "c \<noteq> CHR ''<''" "c \<noteq> CHR ''>''"
        using r that(2,3) by auto
      ultimately show ?thesis by simp
    qed
    from less.prems(1) obtain res t where
      mem: "c \<in> set (stripTags_loop ?rest res t)"
      and res: "res = result \<or> (res = result @ encodeRune ?r \<and> ?r \<noteq> 0x3C \<and> ?r \<noteq> 0x3E)"
      unfolding stripTags_loop_step [OF False, of result inTag]
      by (auto split: if_splits)
    from IH [OF mem] show ?thesis
    proof
      assume "c \<in> set res"
      with res enc show ?thesis by auto
    next
      assume "c \<in> set ?rest \<and> c \<noteq> CHR ''<'' \<and> c \<noteq> CHR ''>''"
      with rest show ?thesis by simp
    qed
  qed
qed

lemma stripTags_no_brackets:
  "CHR ''<'' \<notin> set (stripTags s) \<and> CHR ''>'' \<notin> set (stripTags s)"
  using stripTags_loop_mem [of "CHR ''<''" s "[]" False]
    stripTags_loop_mem [of "CHR ''>''" s "[]" False]
  by (auto simp: stripTags_def)

lemma stripTags_loop_before_lt:
  "stripTags_loop (a @ CHR ''<'' # rest) result inTag =
     stripTags_loop rest (stripTags_loop a result inTag) True"
proof (induction "length a" arbitrary: a result inTag rule: less_induct)
  case less
  show ?case
  proof (cases "a = []")
    case True
    then show ?thesis by (simp add: stripTags_loop_Nil stripTags_loop_ascii)
  next
    case False
    have d: "decodeRune (a @ CHR ''<'' # rest) = decodeRune a"
      by (rule decodeRune_append_ascii [OF False]) simp
    have w: "snd (decodeRune a) \<le> length a"
      using decodeRune_width [OF False] by simp
    have IH: "stripTags_loop (drop (snd (decodeRune a)) a @ CHR ''<'' # rest) res t =
        stripTags_loop rest (stripTags_loop (drop (snd (decodeRune a)) a) res t) True" for res t
      by (rule less) (rule drop_decodeRune_shorter [OF False])
    have ne: "a @ CHR ''<'' # rest \<noteq> []"
      by simp
    have L: "stripTags_loop (a @ CHR ''<'' # rest) result inTag =
        (if fst (decodeRune a) = 0x3C
           then stripTags_loop (drop (snd (decodeRune a)) a @ CHR ''<'' # rest) result True
         else if fst (decodeRune a) = 0x3E
           then stripTags_loop (drop (snd (decodeRune a)) a @ CHR ''<'' # rest) result False
         else if \<not> inTag
           then stripTags_loop (drop (snd (decodeRune a)) a @ CHR ''<'' # rest)
                  (result @ encodeRune (fst (decodeRune a))) inTag
         else stripTags_loop (drop (snd (decodeRune a)) a @ CHR ''<'' # rest) result inTag)"
      using stripTags_loop_step [OF ne, of result inTag] by (simp add: d w)
    show ?thesis
      unfolding L stripTags_loop_step [OF False, of result inTag] by (simp add: IH)
  qed
qed

lemma stripTags_loop_inside:
  assumes "CHR ''>'' \<notin> set b"
  shows "stripTags_loop (b @ CHR ''>'' # rest) result True = stripTags_loop rest result False"
    and "stripTags_loop b result True = result"
  using assms
proof (induction "length b" arbitrary: b rule: less_induct)
  case less
  {
    case 1
    show ?case
    proof (cases "b = []")
      case True
      then show ?thesis by (simp add: stripTags_loop_ascii)
    next
      case False
      have d: "decodeRune (b @ CHR ''>'' # rest) = decodeRune b"
        by (rule decodeRune_append_ascii [OF False]) simp
      have w: "snd (decodeRune b) \<le> length b"
        using decodeRune_width [OF False] by simp
      have "fst (decodeRune b) \<noteq> 0x3E"
      proof
        assume "fst (decodeRune b) = 0x3E"
        then have "byte (hd b) = byte (CHR ''>'')"
          using decodeRune_low_fst(2) [of b] by simp
        then have "hd b = CHR ''>''"
          by (simp only: byte_eq_iff)
        then show False
          using False 1 hd_in_set by fastforce
      qed
      moreover have "CHR ''>'' \<notin> set (drop (snd (decodeRune b)) b)"
        using 1 by (blast dest: in_set_dropD)
      then have "stripTags_loop (drop (snd (decodeRune b)) b @ CHR ''>'' # rest) result True =
          stripTags_loop rest result False"
        by (rule less(1) [OF drop_decodeRune_shorter [OF False]])
      moreover have ne: "b @ CHR ''>'' # rest \<noteq> []"
        by simp
      ultimately show ?thesis
        by (subst stripTags_loop_step [OF ne]) (simp add: d w)
    qed
  next
    case 2
    show ?case
    proof (cases "b = []")
      case True
      then show ?thesis by (simp add: stripTags_loop_Nil)
    next
      case False
      have "fst (decodeRune b) \<noteq> 0x3E"
      proof
        assume "fst (decodeRune b) = 0x3E"
        then have "byte (hd b) = byte (CHR ''>'')"
          using decodeRune_low_fst(2) [of b] by simp
        then have "hd b = CHR ''>''"
          by (simp only: byte_eq_iff)
        then show False
          using False 2 hd_in_set by fastforce
      qed
      moreover have "CHR ''>'' \<notin> set (drop (snd (decodeRune b)) b)"
        using 2 by (blast dest: in_set_dropD)
      then have "stripTags_loop (drop (snd (decodeRune b)) b) result True = result"
        by (rule less(2) [OF drop_decodeRune_shorter [OF False]])
      ultimately show ?thesis
        by (subst stripTags_loop_step [OF False]) simp
    qed
  }
qed

text \<open>
  Claim C10. For every input string the output of \<open>stripTags\<close> has no \<open><\<close> and no
  \<open>>\<close>. What stands between a \<open><\<close> and the next \<open>>\<close> is removed with the two
  brackets, so that the output is that of what stands before followed by that of what
  stands after; and after a \<open><\<close> that no \<open>>\<close> follows, the rest of the string is
  removed.
\<close>

theorem stripTags_spec:
  "CHR ''<'' \<notin> set (stripTags s) \<and> CHR ''>'' \<notin> set (stripTags s)
   \<and> (CHR ''>'' \<notin> set b \<longrightarrow>
        stripTags (a @ ''<'' @ b @ ''>'' @ c) = stripTags a @ stripTags c)
   \<and> (CHR ''>'' \<notin> set b \<longrightarrow> stripTags (a @ ''<'' @ b) = stripTags a)"
proof -
  have "stripTags (a @ ''<'' @ b @ ''>'' @ c) = stripTags a @ stripTags c"
    if "CHR ''>'' \<notin> set b"
    using stripTags_loop_inside(1) [OF that] stripTags_loop_acc [of c "stripTags_loop a [] False"]
    by (simp add: stripTags_def stripTags_loop_before_lt)
  moreover have "stripTags (a @ ''<'' @ b) = stripTags a" if "CHR ''>'' \<notin> set b"
    using stripTags_loop_inside(2) [OF that]
    by (simp add: stripTags_def stripTags_loop_before_lt)
  ultimately show ?thesis
    using stripTags_no_brackets [of s] by blast
qed

theorem stripTags_spec_witness:
  "stripTags ''a<b>c<d e>>f<g'' = ''acf''"
  using stripTags_spec [of "''a<b>c<d e>>f<g''" "[]" "[]" "[]"]
  by (simp add: stripTags_def stripTags_loop_Nil stripTags_loop_ascii)

lemma HasPrefix_prefix: "HasPrefix s pre = prefix pre s"
proof
  assume "HasPrefix s pre"
  then have "pre = take (length pre) s"
    by (simp add: HasPrefix_def)
  then show "prefix pre s"
    by (metis take_is_prefix)
next
  assume "prefix pre s"
  then obtain zs where "s = pre @ zs"
    by (auto simp: prefix_def)
  then show "HasPrefix s pre"
    by (simp add: HasPrefix_def)
qed

lemma Contains_sublist: "Contains s substr = sublist substr s"
  by (induction s) (simp_all add: HasPrefix_prefix sublist_Cons_right)

lemma Contains_byte: "Contains s [c] = (c \<in> set s)"
  by (induction s) (auto simp: HasPrefix_def)

lemma isTimestamp_iff:
  "isTimestamp line =
     (CHR '':'' \<in> set line \<and> (CHR ''.'' \<in> set line \<or> CHR '','' \<in> set line)
      \<and> length line < 30)"
  by (simp add: isTimestamp_def Contains_byte)

lemma dedupeVTT_loop_eq:
  "dedupeVTT_loop lines seen textLines = extractText_loop lines seen textLines"
  by (induction lines arbitrary: seen textLines) (simp_all add: Let_def)

lemma extractText_loop_Cons:
  "extractText_loop (l # lines) seen textLines =
     (if TrimSpace l = [] \<or> TrimSpace l = ''WEBVTT'' \<or> TrimSpace l = ''Kind: captions''
         \<or> prefix ''Language:'' (TrimSpace l) \<or> prefix ''NOTE'' (TrimSpace l)
         \<or> sublist ''-->'' (TrimSpace l)
         \<or> (CHR '':'' \<in> set (TrimSpace l)
             \<and> (CHR ''.'' \<in> set (TrimSpace l) \<or> CHR '','' \<in> set (TrimSpace l))
             \<and> length (TrimSpace l) < 30)
         \<or> TrimSpace (stripTags (TrimSpace l)) = []
         \<or> seen (TrimSpace (stripTags (TrimSpace l)))
      then extractText_loop lines seen textLines
      else extractText_loop lines (seen(TrimSpace (stripTags (TrimSpace l)) := True))
             (textLines @ [TrimSpace (stripTags (TrimSpace l))]))"
  unfolding extractText_loop.simps Let_def HasPrefix_prefix Contains_sublist isTimestamp_iff
  by auto

text \<open>
  Claim C1, as the code has it. With \<open>t\<close> the line after trimming, the normalizer
  discards the line if and only if \<open>t\<close> is empty, is \<open>WEBVTT\<close> or
  \<open>Kind: captions\<close>, starts with \<open>Language:\<close> or \<open>NOTE\<close>, contains
  \<open>-->\<close>, contains a colon and a period or comma and is under 30 bytes long, or is
  empty after tag stripping and a second trim. Any other line survives as that
  stripped and trimmed text: alone in a file it is the output, and within a file it is
  appended unless the same text was kept before. The loop of \<open>dedupeVTT\<close> does the
  same.
\<close>

theorem line_filter:
  "(let t = TrimSpace l;
        u = TrimSpace (stripTags t);
        discard = (t = [] \<or> t = ''WEBVTT'' \<or> t = ''Kind: captions''
                   \<or> prefix ''Language:'' t \<or> prefix ''NOTE'' t \<or> sublist ''-->'' t
                   \<or> (CHR '':'' \<in> set t \<and> (CHR ''.'' \<in> set t \<or> CHR '','' \<in> set t)
                       \<and> length t < 30)
                   \<or> u = [])
    in (extractText_loop [l] (\<lambda>_. False) [] = []) = discard
       \<and> extractText_loop [l] (\<lambda>_. False) [] = (if discard then [] else [u])
       \<and> extractText_loop (l # lines) seen textLines =
           (if discard \<or> seen u then extractText_loop lines seen textLines
            else extractText_loop lines (seen(u := True)) (textLines @ [u]))
       \<and> dedupeVTT_loop (l # lines) seen textLines = extractText_loop (l # lines) seen textLines)"
  unfolding Let_def dedupeVTT_loop_eq extractText_loop_Cons
  by auto

theorem line_filter_witness:
  "extractText_loop [''  <i>hello</i> world  '', ''NOTE this is a comment'']
     (\<lambda>_. False) [] = [''hello world'']"
  using line_filter [of "''  <i>hello</i> world  ''" "[''NOTE this is a comment'']"
      "\<lambda>_. False" "[]"]
    line_filter [of "''NOTE this is a comment''" "[]" "\<lambda>_. False"
      "[''hello world'']"]
  by (simp add: eval_simps HasPrefix_prefix [symmetric] Contains_sublist [symmetric])

text \<open>
  The line \<open><c> </c>\<close> is discarded, though it meets none of the conditions of the
  line filter and tag stripping leaves one space of it, which is not the empty string.
\<close>

theorem line_filter_counterexample:
  "extractText_loop [''<c> </c>''] (\<lambda>_. False) [] = []
   \<and> \<not> (let t = TrimSpace ''<c> </c>''
         in t = [] \<or> t = ''WEBVTT'' \<or> t = ''Kind: captions''
            \<or> HasPrefix t ''Language:'' \<or> HasPrefix t ''NOTE'' \<or> Contains t ''-->''
            \<or> (Contains t '':'' \<and> (Contains t ''.'' \<or> Contains t '','') \<and> length t < 30)
            \<or> stripTags t = [])"
  by (simp add: eval_simps)

text \<open>
  Claim C9. For every file content, \<open>dedupeVTT\<close> writes to its output path exactly
  the string that \<open>extractText\<close> returns for that content, and fails with the same
  error when the file cannot be read.
\<close>

theorem dedupeVTT_writes_extractText:
  "(case extractText fs vttPath of
      Inl err \<Rightarrow> dedupeVTT fs vttPath txtPath = Inl err
    | Inr text \<Rightarrow> dedupeVTT fs vttPath txtPath = WriteFile fs txtPath text)
   \<and> (files fs vttPath = Some content \<and> writable fs txtPath \<longrightarrow>
        (\<exists>text. extractText fs vttPath = Inr text
           \<and> dedupeVTT fs vttPath txtPath = Inr (fs\<lparr>files := (files fs)(txtPath \<mapsto> text)\<rparr>)))"
  by (simp add: extractText_def dedupeVTT_def dedupeVTT_loop_eq ReadFile_def WriteFile_def
           Let_def split: sum.splits option.splits)

theorem dedupeVTT_writes_extractText_witness:
  "extractText
     \<lparr>files = [''a.vtt'' \<mapsto> ''WEBVTT\<newline>\<newline>hi <b>there</b>\<newline>hi there''],
      writable = (\<lambda>name. True)\<rparr> ''a.vtt'' = Inr ''hi there''
   \<and> dedupeVTT
     \<lparr>files = [''a.vtt'' \<mapsto> ''WEBVTT\<newline>\<newline>hi <b>there</b>\<newline>hi there''],
      writable = (\<lambda>name. True)\<rparr> ''a.vtt'' ''a.txt''
     = Inr \<lparr>files = [''a.vtt'' \<mapsto> ''WEBVTT\<newline>\<newline>hi <b>there</b>\<newline>hi there'',
                      ''a.txt'' \<mapsto> ''hi there''],
            writable = (\<lambda>name. True)\<rparr>"
  using dedupeVTT_writes_extractText
    [of "\<lparr>files = [''a.vtt'' \<mapsto> ''WEBVTT\<newline>\<newline>hi <b>there</b>\<newline>hi there''],
          writable = (\<lambda>name. True)\<rparr>" "''a.vtt''" "''a.txt''"
        "''WEBVTT\<newline>\<newline>hi <b>there</b>\<newline>hi there''"]
  by (simp add: extractText_def ReadFile_def WriteFile_def eval_simps)

lemma extractText_loop_discard_all:
  assumes "\<forall>l \<in> set lines. TrimSpace l = [] \<or> sublist ''-->'' (TrimSpace l)
             \<or> isTimestamp (TrimSpace l)"
  shows "extractText_loop lines seen textLines = textLines"
  using assms
proof (induction lines)
  case Nil
  then show ?case by simp
next
  case (Cons l lines)
  then have "extractText_loop lines seen textLines = textLines"
    by simp
  moreover have "TrimSpace l = [] \<or> sublist ''-->'' (TrimSpace l) \<or> isTimestamp (TrimSpace l)"
    using Cons.prems by simp
  ultimately show ?case
    unfolding extractText_loop_Cons isTimestamp_iff by auto
qed

lemma cue_lines:
  "TrimSpace ''<00:00:01.000><c> hello</c>'' = ''<00:00:01.000><c> hello</c>''"
  "TrimSpace ''<00:00:02.000><c> world</c>'' = ''<00:00:02.000><c> world</c>''"
  "isTimestamp ''<00:00:01.000><c> hello</c>''"
  "isTimestamp ''<00:00:02.000><c> world</c>''"
  by (simp_all add: eval_simps)

text \<open>
  Claim C4, as the code has it. The two cue lines are 27 bytes long and contain a colon
  and a period, so the timestamp heuristic discards them before any tag is stripped:
  three cue blocks of these two lines, however interleaved with cue-timing and blank
  lines, normalize to the empty string. The same blocks with the tag \<open><c>\<close> alone,
  without the time tags, normalize to \<open>hello\<close>, \<open>world\<close> on two lines.
\<close>

theorem tagged_cues_example:
  "extractText
     \<lparr>files = [''captions.vtt'' \<mapsto>
        ''00:00:01.000 --> 00:00:03.000\<newline><00:00:01.000><c> hello</c>\<newline><00:00:02.000><c> world</c>\<newline>\<newline>00:00:03.000 --> 00:00:05.000\<newline><00:00:01.000><c> hello</c>\<newline><00:00:02.000><c> world</c>\<newline>\<newline>00:00:05.000 --> 00:00:07.000\<newline><00:00:01.000><c> hello</c>\<newline><00:00:02.000><c> world</c>\<newline>''],
      writable = (\<lambda>name. True)\<rparr> ''captions.vtt'' = Inr []
   \<and> isTimestamp ''<00:00:01.000><c> hello</c>''
   \<and> isTimestamp ''<00:00:02.000><c> world</c>''
   \<and> ((\<forall>l \<in> set lines. l = ''<00:00:01.000><c> hello</c>'' \<or> l = ''<00:00:02.000><c> world</c>''
                \<or> sublist ''-->'' (TrimSpace l) \<or> TrimSpace l = []) \<longrightarrow>
        extractText_loop lines (\<lambda>_. False) [] = [])
   \<and> extractText
     \<lparr>files = [''captions.vtt'' \<mapsto>
        ''00:00:01.000 --> 00:00:03.000\<newline><c> hello</c>\<newline><c> world</c>\<newline>\<newline>00:00:03.000 --> 00:00:05.000\<newline><c> hello</c>\<newline><c> world</c>\<newline>\<newline>00:00:05.000 --> 00:00:07.000\<newline><c> hello</c>\<newline><c> world</c>\<newline>''],
      writable = (\<lambda>name. True)\<rparr> ''captions.vtt'' = Inr ''hello\<newline>world''"
proof -
  have "extractText_loop lines (\<lambda>_. False) [] = []"
    if "\<forall>l \<in> set lines. l = ''<00:00:01.000><c> hello</c>'' \<or> l = ''<00:00:02.000><c> world</c>''
                \<or> sublist ''-->'' (TrimSpace l) \<or> TrimSpace l = []"
  proof (rule extractText_loop_discard_all, rule ballI)
    fix l
    assume "l \<in> set lines"
    with that consider "l = ''<00:00:01.000><c> hello</c>''" | "l = ''<00:00:02.000><c> world</c>''"
      | "sublist ''-->'' (TrimSpace l) \<or> TrimSpace l = []"
      by blast
    then show "TrimSpace l = [] \<or> sublist ''-->'' (TrimSpace l) \<or> isTimestamp (TrimSpace l)"
    proof cases
      case 1
      then show ?thesis by (simp add: cue_lines)
    next
      case 2
      then show ?thesis by (simp add: cue_lines)
    next
      case 3
      then show ?thesis by blast
    qed
  qed
  moreover have "extractText
     \<lparr>files = [''captions.vtt'' \<mapsto>
        ''00:00:01.000 --> 00:00:03.000\<newline><00:00:01.000><c> hello</c>\<newline><00:00:02.000><c> world</c>\<newline>\<newline>00:00:03.000 --> 00:00:05.000\<newline><00:00:01.000><c> hello</c>\<newline><00:00:02.000><c> world</c>\<newline>\<newline>00:00:05.000 --> 00:00:07.000\<newline><00:00:01.000><c> hello</c>\<newline><00:00:02.000><c> world</c>\<newline>''],
      writable = (\<lambda>name. True)\<rparr> ''captions.vtt'' = Inr []"
    by (simp add: extractText_def ReadFile_def eval_simps)
  moreover have "extractText
     \<lparr>files = [''captions.vtt'' \<mapsto>
        ''00:00:01.000 --> 00:00:03.000\<newline><c> hello</c>\<newline><c> world</c>\<newline>\<newline>00:00:03.000 --> 00:00:05.000\<newline><c> hello</c>\<newline><c> world</c>\<newline>\<newline>00:00:05.000 --> 00:00:07.000\<newline><c> hello</c>\<newline><c> world</c>\<newline>''],
      writable = (\<lambda>name. True)\<rparr> ''captions.vtt'' = Inr ''hello\<newline>world''"
    by (simp add: extractText_def ReadFile_def eval_simps)
  ultimately show ?thesis
    using cue_lines(3,4) by blast
qed

theorem tagged_cues_example_witness:
  "extractText_loop
     [''00:00:01.000 --> 00:00:03.000'', ''<00:00:01.000><c> hello</c>'',
      ''<00:00:02.000><c> world</c>'', [],
      ''00:00:03.000 --> 00:00:05.000'', ''<00:00:01.000><c> hello</c>'',
      ''<00:00:02.000><c> world</c>'', [],
      ''00:00:05.000 --> 00:00:07.000'', ''<00:00:01.000><c> hello</c>'',
      ''<00:00:02.000><c> world</c>'']
     (\<lambda>_. False) [] = []"
proof -
  let ?lines = "[''00:00:01.000 --> 00:00:03.000'', ''<00:00:01.000><c> hello</c>'',
      ''<00:00:02.000><c> world</c>'', [],
      ''00:00:03.000 --> 00:00:05.000'', ''<00:00:01.000><c> hello</c>'',
      ''<00:00:02.000><c> world</c>'', [],
      ''00:00:05.000 --> 00:00:07.000'', ''<00:00:01.000><c> hello</c>'',
      ''<00:00:02.000><c> world</c>'']"
  have t1: "TrimSpace ''00:00:01.000 --> 00:00:03.000'' = ''00:00:01.000 --> 00:00:03.000''"
    and t2: "TrimSpace ''00:00:03.000 --> 00:00:05.000'' = ''00:00:03.000 --> 00:00:05.000''"
    and t3: "TrimSpace ''00:00:05.000 --> 00:00:07.000'' = ''00:00:05.000 --> 00:00:07.000''"
    and t4: "TrimSpace [] = []"
    by (simp_all add: eval_simps)
  have s1: "sublist ''-->'' ''00:00:01.000 --> 00:00:03.000''"
    and s2: "sublist ''-->'' ''00:00:03.000 --> 00:00:05.000''"
    and s3: "sublist ''-->'' ''00:00:05.000 --> 00:00:07.000''"
    by (simp_all add: Contains_sublist [symmetric] HasPrefix_def)
  have "\<forall>l \<in> set ?lines. l = ''<00:00:01.000><c> hello</c>'' \<or> l = ''<00:00:02.000><c> world</c>''
      \<or> sublist ''-->'' (TrimSpace l) \<or> TrimSpace l = []"
    by (simp add: t1 t2 t3 t4 s1 s2 s3)
  with tagged_cues_example [of ?lines] show ?thesis
    by blast
qed

text \<open>The input of the claim does not normalize to \<open>hello\<close>, \<open>world\<close>.\<close>

theorem tagged_cues_counterexample:
  "extractText
     \<lparr>files = [''captions.vtt'' \<mapsto>
        ''00:00:01.000 --> 00:00:03.000\<newline><00:00:01.000><c> hello</c>\<newline><00:00:02.000><c> world</c>\<newline>\<newline>00:00:03.000 --> 00:00:05.000\<newline><00:00:01.000><c> hello</c>\<newline><00:00:02.000><c> world</c>\<newline>\<newline>00:00:05.000 --> 00:00:07.000\<newline><00:00:01.000><c> hello</c>\<newline><00:00:02.000><c> world</c>\<newline>''],
      writable = (\<lambda>name. True)\<rparr> ''captions.vtt'' \<noteq> Inr ''hello\<newline>world''"
  by (simp add: extractText_def ReadFile_def eval_simps)

lemma extractText_loop_cleanLine:
  "extractText_loop (l # lines) seen textLines =
     (case cleanLine l of
        None \<Rightarrow> extractText_loop lines seen textLines
      | Some u \<Rightarrow>
          if seen u then extractText_loop lines seen textLines
          else extractText_loop lines (seen(u := True)) (textLines @ [u]))"
  by (simp add: cleanLine_def Let_def)

lemma extractText_loop_one:
  "extractText_loop [l] (\<lambda>_. False) [] = (case cleanLine l of None \<Rightarrow> [] | Some u \<Rightarrow> [u])"
  by (simp add: extractText_loop_cleanLine del: extractText_loop.simps(2) split: option.splits)

lemma cleanLine_nonempty: "cleanLine l = Some u \<Longrightarrow> u \<noteq> []"
  by (auto simp: cleanLine_def Let_def split: if_splits)

lemma remdups_snoc:
  "remdups (ys @ [c]) = filter (\<lambda>x. x \<noteq> c) (remdups ys) @ [c]"
  by (induction ys) auto

lemma first_occurrences_Cons:
  "rev (remdups (rev cs @ [c])) = c # filter (\<lambda>x. x \<noteq> c) (rev (remdups (rev cs)))"
  by (simp add: remdups_snoc rev_filter)

text \<open>
  The loop keeps the first occurrence of each text that the lines leave, in the order of
  the lines, after what was kept before and without what was seen before.
\<close>

lemma extractText_loop_first_occurrences:
  "extractText_loop lines seen textLines =
     textLines @ filter (\<lambda>x. \<not> seen x)
       (rev (remdups (rev (concat (map (\<lambda>l. extractText_loop [l] (\<lambda>_. False) []) lines)))))"
proof (induction lines arbitrary: seen textLines)
  case Nil
  then show ?case by simp
next
  case (Cons l lines)
  let ?F = "rev (remdups (rev (concat (map (\<lambda>l. extractText_loop [l] (\<lambda>_. False) []) lines))))"
  show ?case
  proof (cases "cleanLine l")
    case None
    then show ?thesis
      by (simp add: extractText_loop_cleanLine [of l lines] extractText_loop_one Cons.IH
            del: extractText_loop.simps(2))
  next
    case (Some u)
    have one: "extractText_loop [l] (\<lambda>_. False) [] = [u]"
      using Some by (simp add: extractText_loop_one del: extractText_loop.simps(2))
    show ?thesis
    proof (cases "seen u")
      case True
      have "filter (\<lambda>x. \<not> seen x) (filter (\<lambda>x. x \<noteq> u) ?F) = filter (\<lambda>x. \<not> seen x) ?F"
        using True by (auto simp: filter_filter intro!: filter_cong)
      then show ?thesis
        using Some True
        by (simp add: extractText_loop_cleanLine [of l lines] one Cons.IH first_occurrences_Cons
              del: extractText_loop.simps(2))
    next
      case False
      have "filter (\<lambda>x. \<not> (seen(u := True)) x) ?F =
          filter (\<lambda>x. \<not> seen x) (filter (\<lambda>x. x \<noteq> u) ?F)"
        by (auto simp: filter_filter intro!: filter_cong)
      then show ?thesis
        using Some False
        by (simp add: extractText_loop_cleanLine [of l lines] one Cons.IH first_occurrences_Cons
              del: extractText_loop.simps(2))
    qed
  qed
qed

lemma extractText_loop_distinct:
  "distinct (extractText_loop lines (\<lambda>_. False) [])"
  by (simp add: extractText_loop_first_occurrences [of lines "\<lambda>_. False" "[]"]
        del: extractText_loop.simps(2))

lemma extractText_loop_set:
  "set (extractText_loop lines (\<lambda>_. False) []) = {u. \<exists>l \<in> set lines. cleanLine l = Some u}"
  by (auto simp: extractText_loop_first_occurrences [of lines "\<lambda>_. False" "[]"]
        extractText_loop_one simp del: extractText_loop.simps(2) split: option.splits)

lemma Split_nonempty: "Split s c \<noteq> []"
  by (induction s) (auto split: list.splits)

lemma Split_no_sep: "p \<in> set (Split s c) \<Longrightarrow> c \<notin> set p"
proof (induction s arbitrary: p)
  case Nil
  then show ?case by simp
next
  case (Cons x s)
  show ?case
  proof (cases "x = c")
    case True
    with Cons show ?thesis by auto
  next
    case False
    obtain piece pieces where sp: "Split s c = piece # pieces"
      using Split_nonempty [of s c] by (cases "Split s c") auto
    with Cons False show ?thesis
      by auto
  qed
qed

lemma Split_id: "c \<notin> set x \<Longrightarrow> Split x c = [x]"
  by (induction x) auto

lemma Split_append: "c \<notin> set x \<Longrightarrow> Split (x @ c # rest) c = x # Split rest c"
  by (induction x) auto

lemma Split_Join:
  "ls \<noteq> [] \<Longrightarrow> \<forall>l \<in> set ls. c \<notin> set l \<Longrightarrow> Split (Join ls [c]) c = ls"
proof (induction ls "[c]" rule: Join.induct)
  case 1
  then show ?case by simp
next
  case (2 x)
  then show ?case by (simp add: Split_id)
next
  case (3 x y ys)
  then show ?case by (simp add: Split_append)
qed

lemma TrimLeftFunc_step:
  "s \<noteq> [] \<Longrightarrow>
   TrimLeftFunc s f =
     (if f (fst (decodeRune s)) then TrimLeftFunc (drop (snd (decodeRune s)) s) f else s)"
  by (subst TrimLeftFunc.simps) (simp add: Let_def split: prod.splits)

lemma TrimRightFunc_step:
  "s \<noteq> [] \<Longrightarrow>
   TrimRightFunc s f =
     (if f (fst (decodeLastRune s))
      then TrimRightFunc (take (length s - snd (decodeLastRune s)) s) f else s)"
  by (subst TrimRightFunc.simps) (simp add: Let_def split: prod.splits)

lemma TrimLeftFunc_set: "set (TrimLeftFunc s f) \<subseteq> set s"
proof (induction "length s" arbitrary: s rule: less_induct)
  case less
  show ?case
  proof (cases "s = []")
    case True
    then show ?thesis by (simp add: TrimLeftFunc_Nil)
  next
    case False
    have "set (TrimLeftFunc (drop (snd (decodeRune s)) s) f) \<subseteq> set (drop (snd (decodeRune s)) s)"
      by (rule less) (rule drop_decodeRune_shorter [OF False])
    then show ?thesis
      using set_drop_subset [of "snd (decodeRune s)" s]
      by (subst TrimLeftFunc_step [OF False]) auto
  qed
qed

lemma TrimRightFunc_set: "set (TrimRightFunc s f) \<subseteq> set s"
proof (induction "length s" arbitrary: s rule: less_induct)
  case less
  show ?case
  proof (cases "s = []")
    case True
    then show ?thesis by (simp add: TrimRightFunc_Nil)
  next
    case False
    let ?s' = "take (length s - snd (decodeLastRune s)) s"
    have "length ?s' < length s"
      using decodeLastRune_width [OF False] False by simp
    then have "set (TrimRightFunc ?s' f) \<subseteq> set ?s'"
      by (rule less)
    then show ?thesis
      using set_take_subset [of "length s - snd (decodeLastRune s)" s]
      by (subst TrimRightFunc_step [OF False]) auto
  qed
qed

lemma TrimSpace_set: "set (TrimSpace s) \<subseteq> set s"
  using TrimRightFunc_set [of "TrimLeftFunc s IsSpace" IsSpace] TrimLeftFunc_set [of s IsSpace]
  by (auto simp: TrimSpace_def)

lemma cleanLine_no_newline:
  assumes "cleanLine l = Some u" and "CHR 0x0A \<notin> set l"
  shows "CHR 0x0A \<notin> set u"
proof
  assume "CHR 0x0A \<in> set u"
  moreover have "u = TrimSpace (stripTags (TrimSpace l))"
    using assms(1) by (auto simp: cleanLine_def Let_def split: if_splits)
  ultimately have "CHR 0x0A \<in> set (stripTags (TrimSpace l))"
    using TrimSpace_set by blast
  then have "CHR 0x0A \<in> set (TrimSpace l)"
    using stripTags_loop_mem [of "CHR 0x0A" "TrimSpace l" "[]" False]
    by (simp add: stripTags_def)
  then show False
    using assms(2) TrimSpace_set by blast
qed

text \<open>
  Claim C2. For every caption input, the lines the normalizer keeps are non-empty and
  pairwise different, and they are the first occurrences, in the order of the input,
  of the texts that the lines of the input leave after trimming, filtering and tag
  stripping. No kept line contains a line break, so the lines of the output text are
  the kept lines. \<open>extractText\<close> returns them joined by line breaks, and the loop of
  \<open>dedupeVTT\<close> keeps the same lines.
\<close>

theorem transcript_lines_unique:
  "(let lines = Split content (CHR 0x0A);
        textLines = extractText_loop lines (\<lambda>_. False) []
    in distinct textLines \<and> [] \<notin> set textLines
       \<and> textLines =
           rev (remdups (rev (concat (map (\<lambda>l. extractText_loop [l] (\<lambda>_. False) []) lines))))
       \<and> (textLines \<noteq> [] \<longrightarrow> Split (Join textLines [CHR 0x0A]) (CHR 0x0A) = textLines)
       \<and> (files fs vttPath = Some content \<longrightarrow>
            extractText fs vttPath = Inr (Join textLines [CHR 0x0A]))
       \<and> dedupeVTT_loop lines (\<lambda>_. False) [] = textLines)"
proof -
  let ?lines = "Split content (CHR 0x0A)"
  let ?out = "extractText_loop ?lines (\<lambda>_. False) []"
  have d: "distinct ?out"
    by (rule extractText_loop_distinct)
  have ne: "[] \<notin> set ?out"
    using cleanLine_nonempty by (auto simp: extractText_loop_set)
  have first: "?out =
      rev (remdups (rev (concat (map (\<lambda>l. extractText_loop [l] (\<lambda>_. False) []) ?lines))))"
    using extractText_loop_first_occurrences [of ?lines "\<lambda>_. False" "[]"] by simp
  have "\<forall>u \<in> set ?out. CHR 0x0A \<notin> set u"
    using cleanLine_no_newline Split_no_sep by (fastforce simp: extractText_loop_set)
  then have split: "?out \<noteq> [] \<longrightarrow> Split (Join ?out [CHR 0x0A]) (CHR 0x0A) = ?out"
    by (simp add: Split_Join)
  have ex: "files fs vttPath = Some content \<longrightarrow>
      extractText fs vttPath = Inr (Join ?out [CHR 0x0A])"
    by (simp add: extractText_def ReadFile_def)
  show ?thesis
    unfolding Let_def using d ne first split ex dedupeVTT_loop_eq by blast
qed

theorem transcript_lines_unique_witness:
  "extractText
     \<lparr>files = [''t.vtt'' \<mapsto> ''one\<newline>two\<newline>one\<newline><i>two</i>\<newline>  one  \<newline>three''],
      writable = (\<lambda>name. True)\<rparr> ''t.vtt'' = Inr ''one\<newline>two\<newline>three''"
  using transcript_lines_unique
    [of "''one\<newline>two\<newline>one\<newline><i>two</i>\<newline>  one  \<newline>three''"
        "\<lparr>files = [''t.vtt'' \<mapsto> ''one\<newline>two\<newline>one\<newline><i>two</i>\<newline>  one  \<newline>three''],
          writable = (\<lambda>name. True)\<rparr>" "''t.vtt''"]
  by (simp add: eval_simps)

end
